theory Spec2Isabelle
  imports Main "HOL-Library.Word" "HOL-Library.Multiset"
begin

unbundle bit_operations_syntax

section \<open>Bytes, 32-bit lengths and raw memory\<close>

text \<open>
  The arenas of \<^verbatim>\<open>CommandQueue.hpp\<close> are raw \<^verbatim>\<open>char*\<close> blocks. A block is a list of
  bytes; \<^verbatim>\<open>uint32_t\<close> is a 32-bit word whose arithmetic wraps. Every typed value the
  queue stores (a function pointer, a callable object, an argument, a return address) is
  its object representation: the list of the \<^verbatim>\<open>sizeof\<close> bytes that an assignment through
  a cast pointer copies. The size of a pointer, \<^verbatim>\<open>sizeof(TCB*)\<close> and
  \<^verbatim>\<open>sizeof(PFNCommandHandler*)\<close> in the source, is the parameter \<open>psz\<close> of every
  definition (8 on a 64-bit target); \<^verbatim>\<open>sizeof(uint32_t)\<close> is 4.
\<close>

type_synonym byte = "8 word"
type_synonym uint32_t = "32 word"

datatype error = OutOfBounds

text \<open>The four bytes of a \<^verbatim>\<open>uint32_t\<close> as x86 stores them (least significant first).\<close>

definition u32_bytes :: "uint32_t \<Rightarrow> byte list" where
  "u32_bytes w = [ucast w, ucast (drop_bit 8 w), ucast (drop_bit 16 w), ucast (drop_bit 24 w)]"

definition bytes_u32 :: "byte list \<Rightarrow> uint32_t" where
  "bytes_u32 bs = foldr (\<lambda>b w. ucast b OR push_bit 8 w) bs 0"

text \<open>
  A read or a write through a cast pointer, \<^verbatim>\<open>*( ( T* ) ( mem + off ) )\<close>. Outside the block
  C++ leaves the behaviour undefined; the model reports it.
\<close>

definition load_bytes :: "byte list \<Rightarrow> nat \<Rightarrow> nat \<Rightarrow> error + byte list" where
  "load_bytes mem off n =
     (if off + n \<le> length mem then Inr (take n (drop off mem)) else Inl OutOfBounds)"

definition store_bytes :: "byte list \<Rightarrow> nat \<Rightarrow> byte list \<Rightarrow> error + byte list" where
  "store_bytes mem off bs =
     (if off + length bs \<le> length mem
      then Inr (take off mem @ bs @ drop (off + length bs) mem)
      else Inl OutOfBounds)"

text \<open>
  \<^verbatim>\<open>::malloc( size )\<close> and \<^verbatim>\<open>::realloc( commands, size )\<close>, taken to succeed. The bytes
  of a fresh block are indeterminate in C; the model fixes them at 0 and no theorem below
  reads a byte that was not written.
\<close>

definition malloc_bytes :: "nat \<Rightarrow> byte list" where
  "malloc_bytes n = replicate n 0"

definition realloc_bytes :: "byte list \<Rightarrow> nat \<Rightarrow> byte list" where
  "realloc_bytes cs n = take n cs @ replicate (n - length cs) 0"

section \<open>The arena: \<^verbatim>\<open>queue_buffer_t\<close> and \<^verbatim>\<open>allocCommand\<close>\<close>

record queue_buffer_t =
  commands :: "byte list"
  size_buf :: uint32_t
  used :: uint32_t

text \<open>One buffer of \<^verbatim>\<open>init( size )\<close>; the constructors pass 256 or the caller's number.\<close>

definition init_buffer :: "uint32_t \<Rightarrow> queue_buffer_t" where
  "init_buffer n = \<lparr>commands = malloc_bytes (unat n), size_buf = n, used = 0\<rparr>"

text \<open>
  The loop \<^verbatim>\<open>do buffer->size *= 2; while ( buffer->used > buffer->size );\<close> on 32-bit
  unsigned numbers. Not returning is the value \<open>None\<close>.
\<close>

partial_function (option) grow_size :: "uint32_t \<Rightarrow> uint32_t \<Rightarrow> uint32_t option" where
  "grow_size u sz = (let sz' = sz * 2 in if u > sz' then grow_size u sz' else Some sz')"

declare grow_size.simps [code]

text \<open>
  \<^verbatim>\<open>allocCommand( buffer, function, size )\<close>: reserves
  \<^verbatim>\<open>sizeof( TCB* ) + sizeof( uint32_t ) + size\<close> bytes at offset \<^verbatim>\<open>used\<close>, grows the block when
  it is too small, writes the handler and the record's length, and returns the buffer
  with the offset of the data section.
\<close>

definition allocCommand ::
  "nat \<Rightarrow> queue_buffer_t \<Rightarrow> byte list \<Rightarrow> uint32_t \<Rightarrow> (error + queue_buffer_t \<times> nat) option" where
  "allocCommand psz buffer function sz =
     (let base = used buffer;
          reserved = of_nat psz + 4 + sz;
          used' = used buffer + reserved
      in case (if used' > size_buf buffer then grow_size used' (size_buf buffer)
               else Some (size_buf buffer)) of
           None \<Rightarrow> None
         | Some size' \<Rightarrow>
             (let commands' = (if used' > size_buf buffer
                               then realloc_bytes (commands buffer) (unat size')
                               else commands buffer)
              in Some (case store_bytes commands' (unat base) function of
                         Inl e \<Rightarrow> Inl e
                       | Inr m1 \<Rightarrow>
                           (case store_bytes m1 (unat base + psz) (u32_bytes reserved) of
                              Inl e \<Rightarrow> Inl e
                            | Inr m2 \<Rightarrow>
                                Inr (buffer\<lparr>commands := m2, size_buf := size', used := used'\<rparr>,
                                     unat base + psz + 4)))))"

text \<open>
  A sequence of reservations on one buffer, each an \<^verbatim>\<open>allocCommand\<close> with its handler
  and the size of its data section.
\<close>

fun alloc_all ::
  "nat \<Rightarrow> queue_buffer_t \<Rightarrow> (byte list \<times> uint32_t) list \<Rightarrow> (error + queue_buffer_t) option" where
  "alloc_all psz buffer [] = Some (Inr buffer)"
| "alloc_all psz buffer (c # cs) =
     (case allocCommand psz buffer (fst c) (snd c) of
        None \<Rightarrow> None
      | Some (Inl e) \<Rightarrow> Some (Inl e)
      | Some (Inr (b, data)) \<Rightarrow> alloc_all psz b cs)"

text \<open>A buffer as \<^verbatim>\<open>init\<close> and \<^verbatim>\<open>allocCommand\<close> keep it: the block is \<^verbatim>\<open>size\<close> bytes long.\<close>

definition buffer_ok :: "queue_buffer_t \<Rightarrow> bool" where
  "buffer_ok b = (length (commands b) = unat (size_buf b) \<and> used b \<le> size_buf b)"

section \<open>The worker's walk over an arena\<close>

text \<open>
  A call the worker makes: the bytes of the handler slot and the pointer it passes, as an
  offset into the block.
\<close>

type_synonym call = "byte list \<times> nat"

text \<open>
  The inner \<^verbatim>\<open>do ... while ( base_addr < end )\<close> of \<^verbatim>\<open>thread()\<close>. Each turn reads the handler
  slot, calls it with \<^verbatim>\<open>base_addr + sizeof( PFNCommandHandler* ) + sizeof( uint32_t )\<close> and
  adds the length slot to \<^verbatim>\<open>base_addr\<close>. The result is the list of calls made and the
  cursor the loop stopped at. A handler is taken not to write into the arena it is called
  from.
\<close>

partial_function (option) walk_loop ::
  "nat \<Rightarrow> byte list \<Rightarrow> nat \<Rightarrow> nat \<Rightarrow> call list \<Rightarrow> (error + call list \<times> nat) option" where
  "walk_loop psz mem fin base_addr calls =
     (case load_bytes mem base_addr psz of
        Inl e \<Rightarrow> Some (Inl e)
      | Inr handler \<Rightarrow>
          (case load_bytes mem (base_addr + psz) 4 of
             Inl e \<Rightarrow> Some (Inl e)
           | Inr len \<Rightarrow>
               (let calls' = calls @ [(handler, base_addr + psz + 4)];
                    base_addr' = base_addr + unat (bytes_u32 len)
                in if base_addr' < fin then walk_loop psz mem fin base_addr' calls'
                   else Some (Inr (calls', base_addr')))))"

declare walk_loop.simps [code]

text \<open>
  The worker's \<^verbatim>\<open>if ( buffer->used ) { ...; buffer->used = 0; }\<close>: the walk from offset 0 to
  \<^verbatim>\<open>used\<close>, then the reset. An empty buffer is left as it is.
\<close>

definition walk :: "nat \<Rightarrow> queue_buffer_t \<Rightarrow> (error + queue_buffer_t \<times> call list) option" where
  "walk psz buffer =
     (if used buffer \<noteq> 0
      then (case walk_loop psz (commands buffer) (unat (used buffer)) 0 [] of
              None \<Rightarrow> None
            | Some (Inl e) \<Rightarrow> Some (Inl e)
            | Some (Inr (calls, cur)) \<Rightarrow> Some (Inr (buffer\<lparr>used := 0\<rparr>, calls)))
      else Some (Inr (buffer, [])))"

text \<open>
  A well-formed record: at least the two header slots long, short enough for its length
  to fit the 32-bit slot, and carrying its own length in that slot.
\<close>

definition wf_record :: "nat \<Rightarrow> byte list \<Rightarrow> bool" where
  "wf_record psz r =
     (psz + 4 \<le> length r \<and> length r < 2 ^ 32 \<and>
      bytes_u32 (take 4 (drop psz r)) = of_nat (length r))"

text \<open>The calls a walk over the records \<open>rs\<close>, laid out from offset \<open>base\<close>, has to make.\<close>

fun record_calls :: "nat \<Rightarrow> nat \<Rightarrow> byte list list \<Rightarrow> call list" where
  "record_calls psz base [] = []"
| "record_calls psz base (r # rs) =
     (take psz r, base + psz + 4) # record_calls psz (base + length r) rs"

section \<open>The typed enqueue forms and their stub functions\<close>

text \<open>
  The parameters \<^verbatim>\<open>v1\<close>, ..., \<^verbatim>\<open>vN\<close> are written one after the other, each at the sum of
  the \<^verbatim>\<open>sizeof\<close>s before it, and read back by the stub the same way. The source spells
  this out once for each count from 0 to 6; the model folds over the list of values.
\<close>

fun store_args :: "byte list \<Rightarrow> nat \<Rightarrow> byte list list \<Rightarrow> error + byte list" where
  "store_args mem off [] = Inr mem"
| "store_args mem off (v # vs) =
     (case store_bytes mem off v of
        Inl e \<Rightarrow> Inl e
      | Inr mem' \<Rightarrow> store_args mem' (off + length v) vs)"

fun load_args :: "byte list \<Rightarrow> nat \<Rightarrow> nat list \<Rightarrow> error + byte list list" where
  "load_args mem off [] = Inr []"
| "load_args mem off (n # ns) =
     (case load_bytes mem off n of
        Inl e \<Rightarrow> Inl e
      | Inr v \<Rightarrow>
          (case load_args mem (off + n) ns of
             Inl e \<Rightarrow> Inl e
           | Inr vs \<Rightarrow> Inr (v # vs)))"

text \<open>
  \<^verbatim>\<open>execute( function, v1, ..., vN )\<close> between \<^verbatim>\<open>acquireBuffer()\<close> and
  \<^verbatim>\<open>releaseBuffer( buffer )\<close>: the record's handler is the stub \<^verbatim>\<open>executeStubVN\<close>, its data
  section is sized \<^verbatim>\<open>sizeof( PFNCommandHandler* ) + sizeof( TCB* ) + sizeof( T1 ) + ...\<close>, the
  callable is written at its start and the parameters from \<^verbatim>\<open>data + sizeof( TCB* )\<close> on.
\<close>

definition execute_record ::
  "nat \<Rightarrow> queue_buffer_t \<Rightarrow> byte list \<Rightarrow> byte list \<Rightarrow> byte list list
     \<Rightarrow> (error + queue_buffer_t \<times> nat) option" where
  "execute_record psz buffer stub function vs =
     (case allocCommand psz buffer stub (of_nat (psz + psz + sum_list (map length vs))) of
        None \<Rightarrow> None
      | Some (Inl e) \<Rightarrow> Some (Inl e)
      | Some (Inr (b, data)) \<Rightarrow>
          Some (case store_bytes (commands b) data function of
                  Inl e \<Rightarrow> Inl e
                | Inr m \<Rightarrow>
                    (case store_args m (data + psz) vs of
                       Inl e \<Rightarrow> Inl e
                     | Inr m' \<Rightarrow> Inr (b\<lparr>commands := m'\<rparr>, data))))"

text \<open>
  \<^verbatim>\<open>executeStubVN< TCB, T1, ..., TN >( data )\<close>: reads the callable (\<open>szf\<close> is
  \<^verbatim>\<open>sizeof( TCB )\<close>) and the parameters (\<open>szs\<close> are their \<^verbatim>\<open>sizeof\<close>s) and makes the call
  \<^verbatim>\<open>function( v1, ..., vN )\<close>, which is the result.
\<close>

definition executeStub ::
  "nat \<Rightarrow> nat \<Rightarrow> nat list \<Rightarrow> byte list \<Rightarrow> nat \<Rightarrow> error + byte list \<times> byte list list" where
  "executeStub psz szf szs mem data =
     (case load_bytes mem data szf of
        Inl e \<Rightarrow> Inl e
      | Inr function \<Rightarrow>
          (case load_args mem (data + psz) szs of
             Inl e \<Rightarrow> Inl e
           | Inr vs \<Rightarrow> Inr (function, vs)))"

text \<open>
  \<^verbatim>\<open>returns( function, ret, v1, ..., vN )\<close>: as \<^verbatim>\<open>execute\<close>, with the return address \<^verbatim>\<open>ret\<close>
  stored right after the callable and the parameters after it.
\<close>

definition returns_record ::
  "nat \<Rightarrow> queue_buffer_t \<Rightarrow> byte list \<Rightarrow> byte list \<Rightarrow> byte list \<Rightarrow> byte list list
     \<Rightarrow> (error + queue_buffer_t \<times> nat) option" where
  "returns_record psz buffer stub function ret vs =
     (case allocCommand psz buffer stub
             (of_nat (psz + psz + length ret + sum_list (map length vs))) of
        None \<Rightarrow> None
      | Some (Inl e) \<Rightarrow> Some (Inl e)
      | Some (Inr (b, data)) \<Rightarrow>
          Some (case store_bytes (commands b) data function of
                  Inl e \<Rightarrow> Inl e
                | Inr m \<Rightarrow>
                    (case store_bytes m (data + psz) ret of
                       Inl e \<Rightarrow> Inl e
                     | Inr m1 \<Rightarrow>
                         (case store_args m1 (data + psz + length ret) vs of
                            Inl e \<Rightarrow> Inl e
                          | Inr m' \<Rightarrow> Inr (b\<lparr>commands := m'\<rparr>, data)))))"

text \<open>
  \<^verbatim>\<open>returnStubVN< TCB, R, T1, ..., TN >( data )\<close>: reads the callable and the parameters,
  calls, and assigns the result through the return address read at
  \<^verbatim>\<open>data + sizeof( TCB* )\<close>. What a callable returns on given parameters is the function
  \<open>invoke\<close>; the memory the return addresses point into is a map from addresses to
  values.
\<close>

definition returnStub ::
  "nat \<Rightarrow> nat \<Rightarrow> nat \<Rightarrow> nat list \<Rightarrow> (byte list \<Rightarrow> byte list list \<Rightarrow> 'r) \<Rightarrow> byte list \<Rightarrow> nat
     \<Rightarrow> (byte list \<rightharpoonup> 'r) \<Rightarrow> error + (byte list \<rightharpoonup> 'r)" where
  "returnStub psz szf szr szs invoke mem data heap =
     (case load_bytes mem data szf of
        Inl e \<Rightarrow> Inl e
      | Inr function \<Rightarrow>
          (case load_args mem (data + psz + szr) szs of
             Inl e \<Rightarrow> Inl e
           | Inr vs \<Rightarrow>
               (case load_bytes mem (data + psz) szr of
                  Inl e \<Rightarrow> Inl e
                | Inr ret \<Rightarrow> Inr (heap(ret \<mapsto> invoke function vs)))))"

section \<open>The double-buffer exchanger\<close>

text \<open>
  The two buffers \<^verbatim>\<open>buffer[ 0 ]\<close> and \<^verbatim>\<open>buffer[ 1 ]\<close>; a slot or a local variable holds
  the address of one of them or \<^verbatim>\<open>nullptr\<close> (\<open>None\<close>).
\<close>

datatype arena = A | B

text \<open>
  At this level a record is the command it encodes, tagged with the thread that wrote it:
  a caller's command, or the \<^verbatim>\<open>join_cb\<close> record that \<^verbatim>\<open>join()\<close> enqueues. An arena holds
  the list of its records between offset 0 and \<^verbatim>\<open>used\<close>; the worker's walk calls them in
  that order.
\<close>

datatype cmd = Call nat | JoinCb

type_synonym entry = "nat \<times> cmd"

text \<open>
  Where the worker stands in \<^verbatim>\<open>thread()\<close>: before the first exchange on \<^verbatim>\<open>secondary\<close>; at
  the exchange on \<^verbatim>\<open>primary\<close>; at the test of \<^verbatim>\<open>buffer\<close> that follows it; in
  \<^verbatim>\<open>cvDequeue.wait\<close>; after the \<^verbatim>\<open>break\<close>.
\<close>

datatype wpc = WStart | WTop | WSpin | WWait | WExit

text \<open>
  Where a producer thread stands: outside the queue; after \<^verbatim>\<open>acquireBuffer\<close>; after it wrote
  its record; in \<^verbatim>\<open>releaseBuffer\<close> after a failed compare-and-swap; in the wait of
  \<^verbatim>\<open>join()\<close>.
\<close>

datatype pstate = Idle | Holding arena | Written arena cmd | CasFailed arena cmd | JoinWait

record cq =
  primary :: "arena option"
  secondary :: "arena option"
  wpc :: wpc
  wbuffer :: "arena option"
  producers :: "pstate list"
  pending :: "arena \<Rightarrow> entry list"
  executed :: "entry list"
  issued :: "entry list"
  join_done :: "nat \<Rightarrow> bool"
  shutdown :: bool
  signals :: nat

text \<open>
  The queue after construction, with \<open>n\<close> producer threads: \<^verbatim>\<open>primary = &buffer[ 0 ]\<close>,
  \<^verbatim>\<open>secondary = &buffer[ 1 ]\<close>, both buffers empty, the worker thread started.
\<close>

definition cq_init :: "nat \<Rightarrow> cq" where
  "cq_init n =
     \<lparr>primary = Some A, secondary = Some B, wpc = WStart, wbuffer = None,
      producers = replicate n Idle, pending = (\<lambda>a. []), executed = [], issued = [],
      join_done = (\<lambda>t. False), shutdown = False, signals = 0\<rparr>"

text \<open>
  \<^verbatim>\<open>cvDequeue.notify_one()\<close>: counted in \<open>signals\<close>; it wakes the worker when the worker
  waits and is lost otherwise.
\<close>

definition notify_one :: "cq \<Rightarrow> cq" where
  "notify_one s = s\<lparr>wpc := (if wpc s = WWait then WTop else wpc s), signals := signals s + 1\<rparr>"

text \<open>\<^verbatim>\<open>primary.compare_exchange_strong( exp, buffer )\<close> with \<^verbatim>\<open>exp = nullptr\<close>.\<close>

definition cas_primary :: "arena \<Rightarrow> cq \<Rightarrow> bool \<times> cq" where
  "cas_primary buffer s =
     (if primary s = None then (True, s\<lparr>primary := Some buffer\<rparr>) else (False, s))"

text \<open>\<^verbatim>\<open>releaseBuffer( buffer )\<close> run without another thread in between.\<close>

definition releaseBuffer :: "arena \<Rightarrow> cq \<Rightarrow> cq" where
  "releaseBuffer buffer s =
     (case cas_primary buffer s of
        (ok, s1) \<Rightarrow> notify_one (if \<not> ok then s1\<lparr>secondary := Some buffer\<rparr> else s1))"

text \<open>What a thread does once its record is released: \<^verbatim>\<open>join()\<close> goes on to wait.\<close>

fun released :: "cmd \<Rightarrow> pstate" where
  "released JoinCb = JoinWait"
| "released (Call n) = Idle"

text \<open>The worker's walk over the records \<open>es\<close>: \<^verbatim>\<open>join_cb\<close> sets the flag of its thread.\<close>

definition run_entries :: "entry list \<Rightarrow> cq \<Rightarrow> cq" where
  "run_entries es s =
     s\<lparr>executed := executed s @ es,
       join_done := (\<lambda>t. join_done s t \<or> (t, JoinCb) \<in> set es)\<rparr>"

text \<open>
  The atomic actions of the threads. A producer's enqueue is \<open>Acquire\<close> (one turn of the
  loop of \<^verbatim>\<open>acquireBuffer\<close>), \<open>Write\<close>, \<open>Cas\<close> and, when the compare-and-swap failed,
  \<open>Store\<close>; \<^verbatim>\<open>join()\<close> is the enqueue of \<open>JoinCb\<close> followed by \<open>JoinReturn\<close>. The worker's
  actions are the exchanges of \<^verbatim>\<open>thread()\<close>, the processing of the buffer it holds and a
  spurious wake-up; \<open>Destroy\<close> is the destructor's \<^verbatim>\<open>shutdown = true\<close> and \<^verbatim>\<open>notify_one\<close>.
\<close>

datatype event =
    Acquire nat | Write nat cmd | Cas nat | Store nat | JoinReturn nat
  | WorkerInit | WorkerSwap | WorkerPoll | WorkerRun | WorkerWake | Destroy

fun step :: "event \<Rightarrow> cq \<Rightarrow> cq option" where
  "step (Acquire i) s =
     (if i < length (producers s) \<and> producers s ! i = Idle
      then (case primary s of
              None \<Rightarrow> Some s
            | Some a \<Rightarrow> Some (s\<lparr>primary := None, producers := (producers s)[i := Holding a]\<rparr>))
      else None)"
| "step (Write i c) s =
     (if i < length (producers s)
      then (case producers s ! i of
              Holding a \<Rightarrow>
                Some (s\<lparr>producers := (producers s)[i := Written a c],
                        pending := (pending s)(a := pending s a @ [(i, c)]),
                        issued := issued s @ [(i, c)],
                        join_done := (if c = JoinCb then (join_done s)(i := False)
                                      else join_done s)\<rparr>)
            | _ \<Rightarrow> None)
      else None)"
| "step (Cas i) s =
     (if i < length (producers s)
      then (case producers s ! i of
              Written a c \<Rightarrow>
                (case cas_primary a s of
                   (True, s1) \<Rightarrow>
                     Some (notify_one (s1\<lparr>producers := (producers s)[i := released c]\<rparr>))
                 | (False, s1) \<Rightarrow>
                     Some (s1\<lparr>producers := (producers s)[i := CasFailed a c]\<rparr>))
            | _ \<Rightarrow> None)
      else None)"
| "step (Store i) s =
     (if i < length (producers s)
      then (case producers s ! i of
              CasFailed a c \<Rightarrow>
                Some (notify_one (s\<lparr>secondary := Some a,
                                     producers := (producers s)[i := released c]\<rparr>))
            | _ \<Rightarrow> None)
      else None)"
| "step (JoinReturn i) s =
     (if i < length (producers s) \<and> producers s ! i = JoinWait \<and> join_done s i
      then Some (s\<lparr>producers := (producers s)[i := Idle]\<rparr>)
      else None)"
| "step WorkerInit s =
     (if wpc s = WStart
      then Some (s\<lparr>wbuffer := secondary s, secondary := None, wpc := WTop\<rparr>)
      else None)"
| "step WorkerSwap s =
     (if wpc s = WTop
      then Some (s\<lparr>wbuffer := primary s, primary := wbuffer s, wpc := WSpin\<rparr>)
      else None)"
| "step WorkerPoll s =
     (if wpc s = WSpin \<and> wbuffer s = None
      then Some (s\<lparr>wbuffer := secondary s, secondary := None\<rparr>)
      else None)"
| "step WorkerRun s =
     (if wpc s = WSpin
      then (case wbuffer s of
              None \<Rightarrow> None
            | Some a \<Rightarrow>
                (if pending s a \<noteq> []
                 then Some ((run_entries (pending s a) s)
                              \<lparr>pending := (pending s)(a := []), wpc := WTop\<rparr>)
                 else if shutdown s then Some (s\<lparr>wpc := WExit\<rparr>)
                 else Some (s\<lparr>wpc := WWait\<rparr>)))
      else None)"
| "step WorkerWake s = (if wpc s = WWait then Some (s\<lparr>wpc := WTop\<rparr>) else None)"
| "step Destroy s = Some (notify_one (s\<lparr>shutdown := True\<rparr>))"

text \<open>A schedule is a list of actions; \<open>None\<close> when one of them is not enabled.\<close>

fun run :: "event list \<Rightarrow> cq \<Rightarrow> cq option" where
  "run [] s = Some s"
| "run (e # es) s = (case step e s of None \<Rightarrow> None | Some s' \<Rightarrow> run es s')"

text \<open>Who holds which arena: the slots, the worker's \<^verbatim>\<open>buffer\<close> and the producers.\<close>

definition slot :: "arena option \<Rightarrow> arena multiset" where
  "slot x = (case x of None \<Rightarrow> {#} | Some a \<Rightarrow> {#a#})"

fun holds :: "pstate \<Rightarrow> arena multiset" where
  "holds Idle = {#}"
| "holds (Holding a) = {#a#}"
| "holds (Written a c) = {#a#}"
| "holds (CasFailed a c) = {#a#}"
| "holds JoinWait = {#}"

definition owners :: "cq \<Rightarrow> arena multiset" where
  "owners s =
     slot (primary s) + slot (secondary s) + slot (wbuffer s)
       + sum_list (map holds (producers s))"

text \<open>The arenas of the producers that stand between the failed swap and the store.\<close>

fun parked :: "pstate \<Rightarrow> arena multiset" where
  "parked (CasFailed a c) = {#a#}"
| "parked p = {#}"

definition exchanger_inv :: "cq \<Rightarrow> bool" where
  "exchanger_inv s =
     (owners s = {#A, B#} \<and>
      (wpc s = WStart \<longrightarrow> wbuffer s = None) \<and>
      size (slot (secondary s) + sum_list (map parked (producers s))) \<le> 1)"

text \<open>The commands of thread \<open>i\<close> in a log, in the order of the log.\<close>

definition of_thread :: "nat \<Rightarrow> entry list \<Rightarrow> cmd list" where
  "of_thread i es = map snd (filter (\<lambda>e. fst e = i) es)"

text \<open>
  Two schedules of two producer threads, 0 and 1, on a queue whose worker has gone to
  sleep holding the empty arena \<open>A\<close>. Thread 0 enqueues command 1 into \<open>B\<close> and returns.
  Thread 1 acquires \<open>B\<close>; the worker, woken by thread 0, swaps its empty \<open>A\<close> into
  \<^verbatim>\<open>primary\<close>, gets \<^verbatim>\<open>nullptr\<close> and polls \<^verbatim>\<open>secondary\<close>. Thread 0 starts its second enqueue
  and acquires \<open>A\<close>. Thread 1 writes and releases \<open>B\<close>: its compare-and-swap finds
  \<^verbatim>\<open>primary\<close> empty and puts \<open>B\<close>, which holds command 1, there. Thread 0 releases \<open>A\<close>: its
  compare-and-swap fails and \<open>A\<close>, which holds only the second record of thread 0, goes to
  \<^verbatim>\<open>secondary\<close>, where the worker takes it first.
\<close>

definition fifo_schedule :: "event list" where
  "fifo_schedule =
     [WorkerInit, WorkerSwap, WorkerRun,
      Acquire 0, Write 0 (Call 1), Cas 0,
      Acquire 1, WorkerSwap, WorkerPoll,
      Acquire 0, Write 0 (Call 2),
      Write 1 (Call 7), Cas 1,
      Cas 0, Store 0,
      WorkerPoll, WorkerRun, WorkerSwap, WorkerRun]"

definition join_schedule :: "event list" where
  "join_schedule =
     [WorkerInit, WorkerSwap, WorkerRun,
      Acquire 0, Write 0 (Call 1), Cas 0,
      Acquire 1, WorkerSwap, WorkerPoll,
      Acquire 0, Write 0 JoinCb,
      Write 1 (Call 7), Cas 1,
      Cas 0, Store 0,
      WorkerPoll, WorkerRun, JoinReturn 0]"

text \<open>
  With one producer thread the arenas are walked in a fixed order: \<open>front\<close> is the arena
  the worker walks next, \<open>other (front s)\<close> the one after it.
\<close>

fun other :: "arena \<Rightarrow> arena" where
  "other A = B"
| "other B = A"

definition front :: "cq \<Rightarrow> arena" where
  "front s =
     (case wbuffer s of
        Some w \<Rightarrow> w
      | None \<Rightarrow>
          (case secondary s of
             Some x \<Rightarrow> x
           | None \<Rightarrow> (case primary s of Some p \<Rightarrow> other p | None \<Rightarrow> A)))"

text \<open>
  The invariant of the queue with one producer thread: the records written so far are
  the records executed so far, followed by the records of the front arena and then those
  of the other; the arena the worker holds at the top of its loop, or sleeps on, is
  empty.
\<close>

definition single_inv :: "cq \<Rightarrow> bool" where
  "single_inv s =
     (length (producers s) = 1 \<and> owners s = {#A, B#}
      \<and> issued s = executed s @ pending s (front s) @ pending s (other (front s))
      \<and> (wpc s \<in> {WTop, WWait, WExit} \<longrightarrow> (\<exists>w. wbuffer s = Some w \<and> pending s w = []))
      \<and> (wpc s = WStart \<longrightarrow> wbuffer s = None \<and> secondary s = Some B \<and> pending s B = [])
      \<and> (wbuffer s = None \<and> secondary s = None \<longrightarrow>
            (\<forall>p. primary s = Some p \<longrightarrow> pending s p = []))
      \<and> (wbuffer s \<noteq> None \<longrightarrow> secondary s = None)
      \<and> (\<forall>a c. producers s = [CasFailed a c] \<longrightarrow> primary s = Some (other a)))"

text \<open>
  A thread is in \<^verbatim>\<open>join()\<close> from the moment it wrote the \<^verbatim>\<open>join_cb\<close> record until the wait
  returns. While it is, the record is the last one written, and it is pending exactly
  once until the worker has set the flag.
\<close>

fun joining :: "pstate \<Rightarrow> bool" where
  "joining (Written a JoinCb) = True"
| "joining (CasFailed a JoinCb) = True"
| "joining JoinWait = True"
| "joining p = False"

definition join_inv :: "cq \<Rightarrow> bool" where
  "join_inv s =
     (single_inv s \<and>
      (if joining (hd (producers s))
       then issued s \<noteq> [] \<and> last (issued s) = (0, JoinCb) \<and>
            (if join_done s 0 then issued s = executed s
             else count_list (pending s A @ pending s B) (0, JoinCb) = 1)
       else (0, JoinCb) \<notin> set (pending s A @ pending s B)))"


section \<open>Ownership of the arenas\<close>

text \<open>
  Every action keeps the two arenas among the slots, the worker and the producers. The
  store into \<^verbatim>\<open>secondary\<close> overwrites the slot, so the invariant also says that the slot
  is empty while a producer stands before that store, and that at most one does.
\<close>

lemma sum_list_map_update:
  "i < length ps \<Longrightarrow>
   sum_list (map f (ps[i := p])) + f (ps ! i) = sum_list (map f ps) + (f p :: 'a multiset)"
  by (induction ps arbitrary: i) (auto simp: nth_Cons split: nat.splits)

lemma slot_simps [simp]: "slot None = {#}" "slot (Some a) = {#a#}"
  by (simp_all add: slot_def)

lemma size_parked_le_holds: "size (parked p) \<le> size (holds p)"
  by (cases p) auto

lemma size_parked_sum_le:
  "size (sum_list (map parked ps)) \<le> size (sum_list (map holds ps))"
  by (induction ps) (auto intro: add_mono size_parked_le_holds)

lemma size_parked_sum_lt:
  "i < length ps \<Longrightarrow> parked (ps ! i) = {#} \<Longrightarrow>
   size (sum_list (map parked ps)) + size (holds (ps ! i)) \<le> size (sum_list (map holds ps))"
proof (induction ps arbitrary: i)
  case Nil
  then show ?case by simp
next
  case (Cons p ps)
  show ?case
  proof (cases i)
    case 0
    then show ?thesis using Cons.prems size_parked_sum_le[of ps] by simp
  next
    case (Suc j)
    then show ?thesis
      using Cons.prems Cons.IH[of j] size_parked_le_holds[of p] by simp
  qed
qed

lemma released_holds [simp]: "holds (released c) = {#}" "parked (released c) = {#}"
  by (cases c; simp)+

lemma inv_acquire:
  assumes "exchanger_inv s" "step (Acquire i) s = Some s'"
  shows "exchanger_inv s'"
proof (cases "primary s")
  case None
  then show ?thesis using assms by (auto split: if_splits)
next
  case (Some a)
  from assms have i: "i < length (producers s)" "producers s ! i = Idle"
    by (auto split: if_splits)
  have s': "s' = s\<lparr>primary := None, producers := (producers s)[i := Holding a]\<rparr>"
    using assms Some i by simp
  have h: "sum_list (map holds ((producers s)[i := Holding a])) = sum_list (map holds (producers s)) + {#a#}"
    using sum_list_map_update[OF i(1), of holds "Holding a"] i(2) by simp
  have p: "sum_list (map parked ((producers s)[i := Holding a])) = sum_list (map parked (producers s))"
    using sum_list_map_update[OF i(1), of parked "Holding a"] i(2) by simp
  show ?thesis
    using assms(1) Some unfolding s' exchanger_inv_def owners_def by (simp add: h p)
qed

lemma inv_write:
  assumes "exchanger_inv s" "step (Write i c) s = Some s'"
  shows "exchanger_inv s'"
proof -
  from assms obtain a where i: "i < length (producers s)" "producers s ! i = Holding a"
    by (auto split: if_splits pstate.splits)
  have h: "sum_list (map holds ((producers s)[i := Written a c])) = sum_list (map holds (producers s))"
    using sum_list_map_update[OF i(1), of holds "Written a c"] i(2) by simp
  have p: "sum_list (map parked ((producers s)[i := Written a c])) = sum_list (map parked (producers s))"
    using sum_list_map_update[OF i(1), of parked "Written a c"] i(2) by simp
  show ?thesis
    using assms i unfolding exchanger_inv_def owners_def by (auto simp: h p)
qed

lemma inv_notify: "exchanger_inv (notify_one s) = (exchanger_inv s)"
  by (auto simp: exchanger_inv_def owners_def notify_one_def)

lemma inv_cas:
  assumes "exchanger_inv s" "step (Cas i) s = Some s'"
  shows "exchanger_inv s'"
proof -
  from assms obtain a c where i: "i < length (producers s)" "producers s ! i = Written a c"
    by (auto split: if_splits pstate.splits)
  show ?thesis
  proof (cases "primary s")
    case None
    have s': "s' = notify_one (s\<lparr>primary := Some a, producers := (producers s)[i := released c]\<rparr>)"
      using assms i None by (simp add: cas_primary_def)
    have h: "sum_list (map holds ((producers s)[i := released c])) + {#a#} = sum_list (map holds (producers s))"
      using sum_list_map_update[OF i(1), of holds "released c"] i(2) by simp
    have p: "sum_list (map parked ((producers s)[i := released c])) = sum_list (map parked (producers s))"
      using sum_list_map_update[OF i(1), of parked "released c"] i(2) by simp
    show ?thesis
      using assms(1) None h[symmetric] unfolding s' inv_notify
      unfolding exchanger_inv_def owners_def by (simp add: p)
  next
    case (Some y)
    have s': "s' = s\<lparr>producers := (producers s)[i := CasFailed a c]\<rparr>"
      using assms i Some by (simp add: cas_primary_def)
    have h: "sum_list (map holds ((producers s)[i := CasFailed a c])) = sum_list (map holds (producers s))"
      using sum_list_map_update[OF i(1), of holds "CasFailed a c"] i(2) by simp
    have p: "sum_list (map parked ((producers s)[i := CasFailed a c])) = sum_list (map parked (producers s)) + {#a#}"
      using sum_list_map_update[OF i(1), of parked "CasFailed a c"] i(2) by simp
    have "size (owners s) = 2" using assms(1) by (simp add: exchanger_inv_def)
    then have "size (slot (secondary s)) + size (sum_list (map holds (producers s))) \<le> 1"
      using Some by (simp add: owners_def)
    moreover have "size (sum_list (map parked (producers s))) + 1 \<le> size (sum_list (map holds (producers s)))"
      using size_parked_sum_lt[OF i(1)] i(2) by simp
    ultimately have "size (slot (secondary s)) + size (sum_list (map parked (producers s))) = 0"
      by linarith
    then show ?thesis
      using assms(1) unfolding s' exchanger_inv_def owners_def by (simp add: h p)
  qed
qed

lemma inv_store:
  assumes "exchanger_inv s" "step (Store i) s = Some s'"
  shows "exchanger_inv s'"
proof -
  from assms obtain a c where i: "i < length (producers s)" "producers s ! i = CasFailed a c"
    by (auto split: if_splits pstate.splits)
  have s': "s' = notify_one (s\<lparr>secondary := Some a, producers := (producers s)[i := released c]\<rparr>)"
    using assms i by simp
  have h: "sum_list (map holds ((producers s)[i := released c])) + {#a#} = sum_list (map holds (producers s))"
    using sum_list_map_update[OF i(1), of holds "released c"] i(2) by simp
  have p: "sum_list (map parked ((producers s)[i := released c])) + {#a#} = sum_list (map parked (producers s))"
    using sum_list_map_update[OF i(1), of parked "released c"] i(2) by simp
  have le: "size (slot (secondary s)) + size (sum_list (map parked (producers s))) \<le> 1"
    using assms(1) by (simp add: exchanger_inv_def)
  have "1 \<le> size (sum_list (map parked (producers s)))"
    using p[symmetric] by simp
  with le have sec: "secondary s = None" and one: "size (sum_list (map parked (producers s))) = 1"
    by (cases "secondary s"; simp)+
  have p0: "size (sum_list (map parked ((producers s)[i := released c]))) = 0"
    using one p[symmetric] by simp
  show ?thesis
    using assms(1) sec h[symmetric] p0 unfolding s' inv_notify
    unfolding exchanger_inv_def owners_def by simp
qed

lemma inv_step:
  assumes "exchanger_inv s" "step e s = Some s'"
  shows "exchanger_inv s'"
proof (cases e)
  case (Acquire i) then show ?thesis using assms inv_acquire by blast
next
  case (Write i c) then show ?thesis using assms inv_write by blast
next
  case (Cas i) then show ?thesis using assms inv_cas by blast
next
  case (Store i) then show ?thesis using assms inv_store by blast
next
  case (JoinReturn i)
  with assms have i: "i < length (producers s)" "producers s ! i = JoinWait"
    and s': "s' = s\<lparr>producers := (producers s)[i := Idle]\<rparr>"
    by (auto split: if_splits)
  have h: "sum_list (map holds ((producers s)[i := Idle])) = sum_list (map holds (producers s))"
    using sum_list_map_update[OF i(1), of holds Idle] i(2) by simp
  have p: "sum_list (map parked ((producers s)[i := Idle])) = sum_list (map parked (producers s))"
    using sum_list_map_update[OF i(1), of parked Idle] i(2) by simp
  show ?thesis using assms(1) unfolding s' exchanger_inv_def owners_def by (simp add: h p)
next
  case WorkerInit
  then show ?thesis using assms
    by (auto simp: exchanger_inv_def owners_def split: if_splits)
next
  case WorkerSwap
  then show ?thesis using assms
    by (auto simp: exchanger_inv_def owners_def ac_simps split: if_splits)
next
  case WorkerPoll
  then show ?thesis using assms
    by (auto simp: exchanger_inv_def owners_def split: if_splits)
next
  case WorkerRun
  then show ?thesis using assms
    by (auto simp: exchanger_inv_def owners_def run_entries_def split: if_splits option.splits)
next
  case WorkerWake
  then show ?thesis using assms
    by (auto simp: exchanger_inv_def owners_def split: if_splits)
next
  case Destroy
  then show ?thesis using assms
    by (auto simp: inv_notify) (auto simp: exchanger_inv_def owners_def)
qed

lemma sum_list_replicate_empty: "sum_list (replicate n ({#} :: 'a multiset)) = {#}"
  by (induction n) auto

lemma inv_init: "exchanger_inv (cq_init n)"
  by (simp add: exchanger_inv_def owners_def cq_init_def sum_list_replicate_empty)

lemma inv_run: "exchanger_inv s \<Longrightarrow> run es s = Some s' \<Longrightarrow> exchanger_inv s'"
  by (induction es arbitrary: s) (auto split: option.splits intro: inv_step)

text \<open>
  C2. Arena conservation: in every state that a schedule of producer acquires, writes,
  releases and worker exchanges reaches from the constructed queue, the slots
  \<^verbatim>\<open>primary\<close> and \<^verbatim>\<open>secondary\<close>, the worker and the producers together hold exactly the two
  arenas, each once; the worker holds at most one.
\<close>

theorem arena_conservation:
  assumes "run es (cq_init n) = Some s"
  shows "owners s = {#A, B#} \<and> size (slot (wbuffer s)) \<le> 1"
proof -
  have "exchanger_inv s" using inv_run[OF inv_init assms] .
  then have "owners s = {#A, B#}" by (simp add: exchanger_inv_def)
  moreover have "size (slot (wbuffer s)) \<le> 1" by (cases "wbuffer s") simp_all
  ultimately show ?thesis by simp
qed

theorem arena_conservation_witness:
  "\<exists>s. run [WorkerInit, Acquire 0, WorkerSwap, Write 0 (Call 1), Cas 0, Store 0, WorkerPoll]
          (cq_init 1) = Some s
       \<and> owners s = {#A, B#} \<and> size (slot (wbuffer s)) \<le> 1 \<and> wbuffer s = Some A"
proof -
  obtain s where r:
    "run [WorkerInit, Acquire 0, WorkerSwap, Write 0 (Call 1), Cas 0, Store 0, WorkerPoll]
       (cq_init 1) = Some s" and w: "wbuffer s = Some A"
    by (simp add: cq_init_def cas_primary_def notify_one_def)
  from arena_conservation[OF r] r w show ?thesis by blast
qed


section \<open>The release protocol\<close>

text \<open>
  The two atomic steps of a release in the step function are \<^verbatim>\<open>releaseBuffer\<close>: after
  \<open>Cas\<close>, and after \<open>Store\<close> when the compare-and-swap failed, the slots and the count of
  signals are those of \<^verbatim>\<open>releaseBuffer\<close> run on the state before.
\<close>

lemma release_steps:
  assumes "i < length (producers s)" "producers s ! i = Written a c"
  shows "\<exists>s1. step (Cas i) s = Some s1 \<and>
          (if primary s = None
           then primary s1 = primary (releaseBuffer a s)
                \<and> secondary s1 = secondary (releaseBuffer a s)
                \<and> signals s1 = signals (releaseBuffer a s)
           else (\<exists>s2. step (Store i) s1 = Some s2
                \<and> primary s2 = primary (releaseBuffer a s)
                \<and> secondary s2 = secondary (releaseBuffer a s)
                \<and> signals s2 = signals (releaseBuffer a s)))"
  using assms
  by (auto simp: releaseBuffer_def cas_primary_def notify_one_def)

text \<open>
  C1 as stated fails: \<^verbatim>\<open>releaseBuffer\<close> calls \<^verbatim>\<open>cvDequeue.notify_one()\<close> after the \<^verbatim>\<open>if\<close>, on
  both paths. Here the one producer has acquired \<open>A\<close> and written a record, so \<^verbatim>\<open>primary\<close>
  is empty and no signal has been sent; it releases \<open>A\<close>: the compare-and-swap succeeds,
  \<^verbatim>\<open>secondary\<close> is not touched, and the condition variable is signalled.
\<close>

theorem releaseBuffer_signals_on_primary:
  "map_option (\<lambda>s. (primary s, secondary s, signals s))
     (run [Acquire 0, Write 0 (Call 1)] (cq_init 1)) = Some (None, Some B, 0)
   \<and> map_option (\<lambda>s. (primary s, secondary s, signals s))
     (map_option (releaseBuffer A) (run [Acquire 0, Write 0 (Call 1)] (cq_init 1)))
     = Some (Some A, Some B, 1)"
  by (simp add: releaseBuffer_def cas_primary_def notify_one_def cq_init_def)

text \<open>
  C1, amended. Producer release protocol: \<^verbatim>\<open>releaseBuffer\<close> first attempts the
  compare-and-swap of \<^verbatim>\<open>nullptr\<close> in \<^verbatim>\<open>primary\<close> with the arena; when it succeeds the arena
  is in \<^verbatim>\<open>primary\<close> and \<^verbatim>\<open>secondary\<close> is as it was; only when it fails (\<^verbatim>\<open>primary\<close> is
  occupied) is the arena stored into \<^verbatim>\<open>secondary\<close>, and \<^verbatim>\<open>primary\<close> is as it was. The
  dispatch condition variable is signalled exactly once on either path.
\<close>

theorem releaseBuffer_protocol:
  "(primary s = None \<longrightarrow>
      primary (releaseBuffer buffer s) = Some buffer
      \<and> secondary (releaseBuffer buffer s) = secondary s)
   \<and> (primary s \<noteq> None \<longrightarrow>
      primary (releaseBuffer buffer s) = primary s
      \<and> secondary (releaseBuffer buffer s) = Some buffer)
   \<and> signals (releaseBuffer buffer s) = signals s + 1"
  by (simp add: releaseBuffer_def cas_primary_def notify_one_def)

theorem releaseBuffer_protocol_witness:
  "primary (releaseBuffer B ((cq_init 1)\<lparr>primary := None\<rparr>)) = Some B
   \<and> secondary (releaseBuffer B ((cq_init 1)\<lparr>primary := None\<rparr>)) = Some B
   \<and> signals (releaseBuffer B ((cq_init 1)\<lparr>primary := None\<rparr>)) = 1
   \<and> primary (releaseBuffer B ((cq_init 1)\<lparr>secondary := None\<rparr>)) = Some A
   \<and> secondary (releaseBuffer B ((cq_init 1)\<lparr>secondary := None\<rparr>)) = Some B
   \<and> signals (releaseBuffer B ((cq_init 1)\<lparr>secondary := None\<rparr>)) = 1"
  using releaseBuffer_protocol[of "(cq_init 1)\<lparr>primary := None\<rparr>" B]
    releaseBuffer_protocol[of "(cq_init 1)\<lparr>secondary := None\<rparr>" B]
  by (simp add: cq_init_def)

section \<open>Order of execution with two producers\<close>

text \<open>
  C3 (join fence), evaluated on \<open>join_schedule\<close>. Thread 0 enqueues command 1, its enqueue
  returns, and it calls \<^verbatim>\<open>join()\<close>. The \<^verbatim>\<open>join_cb\<close> record lands in the arena that reaches
  the worker through \<^verbatim>\<open>secondary\<close>, ahead of the arena in \<^verbatim>\<open>primary\<close> that holds command 1:
  when \<^verbatim>\<open>join()\<close> has returned (thread 0 is \<open>Idle\<close> again), the worker has executed the
  \<^verbatim>\<open>join_cb\<close> record only, and command 1 is still pending in \<open>B\<close>.
\<close>

theorem join_returns_before_prior_command:
  "map_option (\<lambda>s. (of_thread 0 (issued s), executed s, pending s B, producers s ! 0))
     (run join_schedule (cq_init 2))
   = Some ([Call 1, JoinCb], [(0, JoinCb)], [(0, Call 1), (1, Call 7)], Idle)"
  by (simp add: join_schedule_def cq_init_def notify_one_def cas_primary_def run_entries_def
        of_thread_def)

text \<open>
  C4 (single-producer FIFO), evaluated on \<open>fifo_schedule\<close>. Thread 0 enqueues command 1 and
  then command 2; the worker executes command 2 before command 1.
\<close>

theorem fifo_violated_by_second_producer:
  "map_option (\<lambda>s. (of_thread 0 (issued s), of_thread 0 (executed s), executed s))
     (run fifo_schedule (cq_init 2))
   = Some ([Call 1, Call 2], [Call 2, Call 1], [(0, Call 2), (0, Call 1), (1, Call 7)])"
  by (simp add: fifo_schedule_def cq_init_def notify_one_def cas_primary_def run_entries_def
        of_thread_def)

section \<open>Order of execution with one producer\<close>

text \<open>
  The two schedules above need the second producer. With one producer thread every
  action keeps \<open>single_inv\<close>, so the worker executes the records in the order they were
  written, and \<open>join_inv\<close>, so \<^verbatim>\<open>join()\<close> returns only when every record written so far has
  been executed.
\<close>

lemma other_other [simp]: "other (other a) = a"
  by (cases a) auto

lemma other_neq [simp]: "other a \<noteq> a" "a \<noteq> other a"
  by (cases a; simp)+

lemma pair_AB: "({#x, y#} = {#A, B#}) = (y = other x)"
  by (cases x; cases y) auto

lemma single_AB [simp]: "{#x#} \<noteq> {#A, B#}" "{#} \<noteq> {#A, B#}"
  by auto

lemma triple_AB [simp]: "{#x, y, z#} \<noteq> {#A, B#}" "{#x, y, z, u#} \<noteq> {#A, B#}"
proof -
  have "size {#x, y, z#} \<noteq> size {#A, B#}" by simp
  then show "{#x, y, z#} \<noteq> {#A, B#}" by metis
  have "size {#x, y, z, u#} \<noteq> size {#A, B#}" by simp
  then show "{#x, y, z, u#} \<noteq> {#A, B#}" by metis
qed

text \<open>
  Each action keeps the invariant; the proofs go through the places the two arenas can
  be in.
\<close>

lemma single_swap:
  assumes "single_inv s" "step WorkerSwap s = Some s'"
  shows "single_inv s'"
proof -
  from assms(1) have "length (producers s) = 1" by (simp add: single_inv_def)
  then obtain p where p: "producers s = [p]" by (cases "producers s") auto
  from assms(2) have top: "wpc s = WTop"
    and s': "s' = s\<lparr>wbuffer := primary s, primary := wbuffer s, wpc := WSpin\<rparr>"
    by (auto split: if_splits)
  from assms(1) top obtain w where w: "wbuffer s = Some w" "pending s w = []" "secondary s = None"
    by (auto simp: single_inv_def)
  show ?thesis
    using assms(1) p w unfolding s'
    by (cases "primary s"; cases p)
       (auto simp: single_inv_def front_def owners_def pair_AB split: option.splits)
qed


lemma single_notify: "single_inv (notify_one s) = single_inv s"
  by (auto simp: single_inv_def notify_one_def front_def owners_def split: option.splits)

lemma single_acquire:
  assumes "single_inv s" "step (Acquire i) s = Some s'"
  shows "single_inv s'"
proof -
  from assms(1) have "length (producers s) = 1" by (simp add: single_inv_def)
  then obtain p where p: "producers s = [p]" by (cases "producers s") auto
  from assms(2) p have i: "i = 0" "p = Idle" by (auto split: if_splits)
  show ?thesis
  proof (cases "primary s")
    case None
    then show ?thesis using assms p i by simp
  next
    case (Some a)
    then have s': "s' = s\<lparr>primary := None, producers := [Holding a]\<rparr>"
      using assms(2) p i by simp
    show ?thesis
      using assms(1) p i Some unfolding s'
      by (cases "secondary s"; cases "wbuffer s")
         (auto simp: single_inv_def front_def owners_def pair_AB split: option.splits)
  qed
qed

lemma single_write:
  assumes "single_inv s" "step (Write i c) s = Some s'"
  shows "single_inv s'"
proof -
  from assms(1) have "length (producers s) = 1" by (simp add: single_inv_def)
  then obtain p where p: "producers s = [p]" by (cases "producers s") auto
  from assms(2) p obtain a where i: "i = 0" "p = Holding a"
    by (auto split: if_splits pstate.splits)
  have s': "s' = s\<lparr>producers := [Written a c],
                    pending := (pending s)(a := pending s a @ [(i, c)]),
                    issued := issued s @ [(i, c)],
                    join_done := (if c = JoinCb then (join_done s)(i := False) else join_done s)\<rparr>"
    using assms(2) p i by (auto split: if_splits)
  show ?thesis
    using assms(1) p i unfolding s'
    by (cases "primary s"; cases "secondary s"; cases "wbuffer s")
       (auto simp: single_inv_def front_def owners_def pair_AB split: option.splits)
qed

lemma single_cas:
  assumes "single_inv s" "step (Cas i) s = Some s'"
  shows "single_inv s'"
proof -
  from assms(1) have "length (producers s) = 1" by (simp add: single_inv_def)
  then obtain p where p: "producers s = [p]" by (cases "producers s") auto
  from assms(2) p obtain a c where i: "i = 0" "p = Written a c"
    by (auto split: if_splits pstate.splits)
  show ?thesis
  proof (cases "primary s")
    case None
    then have s': "s' = notify_one (s\<lparr>primary := Some a, producers := [released c]\<rparr>)"
      using assms(2) p i by (simp add: cas_primary_def)
    have "single_inv (s\<lparr>primary := Some a, producers := [released c]\<rparr>)"
      using assms(1) p i None
      by (cases "secondary s"; cases "wbuffer s"; cases c)
         (auto simp: single_inv_def front_def owners_def pair_AB split: option.splits)
    then show ?thesis unfolding s' single_notify .
  next
    case (Some y)
    then have s': "s' = s\<lparr>producers := [CasFailed a c]\<rparr>"
      using assms(2) p i by (simp add: cas_primary_def)
    show ?thesis
      using assms(1) p i Some unfolding s'
      by (cases "secondary s"; cases "wbuffer s")
         (auto simp: single_inv_def front_def owners_def pair_AB split: option.splits)
  qed
qed

lemma single_store:
  assumes "single_inv s" "step (Store i) s = Some s'"
  shows "single_inv s'"
proof -
  from assms(1) have "length (producers s) = 1" by (simp add: single_inv_def)
  then obtain p where p: "producers s = [p]" by (cases "producers s") auto
  from assms(2) p obtain a c where i: "i = 0" "p = CasFailed a c"
    by (auto split: if_splits pstate.splits)
  have s': "s' = notify_one (s\<lparr>secondary := Some a, producers := [released c]\<rparr>)"
    using assms(2) p i by simp
  have pr: "primary s = Some (other a)" using assms(1) p i by (simp add: single_inv_def)
  have "single_inv (s\<lparr>secondary := Some a, producers := [released c]\<rparr>)"
    using assms(1) p i pr
    by (cases "secondary s"; cases "wbuffer s"; cases c)
       (auto simp: single_inv_def front_def owners_def pair_AB split: option.splits)
  then show ?thesis unfolding s' single_notify .
qed

lemma single_worker:
  assumes "single_inv s" "step e s = Some s'"
    and "e = WorkerInit \<or> e = WorkerPoll \<or> e = WorkerRun \<or> e = WorkerWake \<or> e = Destroy"
  shows "single_inv s'"
proof -
  from assms(1) have "length (producers s) = 1" by (simp add: single_inv_def)
  then obtain p where p: "producers s = [p]" by (cases "producers s") auto
  from assms(3) consider "e = WorkerInit" | "e = WorkerPoll" | "e = WorkerRun" | "e = WorkerWake"
    | "e = Destroy" by blast
  then show ?thesis
  proof cases
    case 1
    then show ?thesis using assms(1,2) p
      by (auto simp: single_inv_def front_def owners_def pair_AB split: if_splits option.splits)
  next
    case 2
    then show ?thesis using assms(1,2) p
      by (cases "secondary s")
         (auto simp: single_inv_def front_def owners_def pair_AB split: if_splits option.splits)
  next
    case 3
    then show ?thesis using assms(1,2) p
      by (cases "wbuffer s")
         (auto simp: single_inv_def front_def owners_def run_entries_def pair_AB split: if_splits option.splits)
  next
    case 4
    then show ?thesis using assms(1,2) p
      by (auto simp: single_inv_def front_def owners_def pair_AB split: if_splits option.splits)
  next
    case 5
    have "single_inv (s\<lparr>shutdown := True\<rparr>)"
      using assms(1) by (auto simp: single_inv_def front_def owners_def split: option.splits)
    then show ?thesis using 5 assms(2) by (auto simp: single_notify)
  qed
qed

lemma single_join_return:
  assumes "single_inv s" "step (JoinReturn i) s = Some s'"
  shows "single_inv s'"
proof -
  from assms(1) have "length (producers s) = 1" by (simp add: single_inv_def)
  then obtain p where p: "producers s = [p]" by (cases "producers s") auto
  from assms(2) p have i: "i = 0" "p = JoinWait" and s': "s' = s\<lparr>producers := [Idle]\<rparr>"
    by (auto split: if_splits)
  show ?thesis using assms(1) p i unfolding s'
    by (auto simp: single_inv_def front_def owners_def split: option.splits)
qed

lemma single_step:
  assumes "single_inv s" "step e s = Some s'"
  shows "single_inv s'"
proof (cases e)
  case (Acquire i) then show ?thesis using assms single_acquire by blast
next
  case (Write i c) then show ?thesis using assms single_write by blast
next
  case (Cas i) then show ?thesis using assms single_cas by blast
next
  case (Store i) then show ?thesis using assms single_store by blast
next
  case (JoinReturn i) then show ?thesis using assms single_join_return by blast
next
  case WorkerSwap then show ?thesis using assms single_swap by blast
qed (use assms single_worker in blast)+

lemma single_init: "single_inv (cq_init 1)"
  by (simp add: single_inv_def cq_init_def owners_def front_def)

lemma single_run: "single_inv s \<Longrightarrow> run es s = Some s' \<Longrightarrow> single_inv s'"
  by (induction es arbitrary: s) (auto split: option.splits intro: single_step)

text \<open>
  With one producer thread the worker executes the records in the order they were
  written: what has been executed is a prefix of what has been written.
\<close>

lemma single_producer_fifo:
  assumes "run es (cq_init 1) = Some s"
  shows "\<exists>rest. issued s = executed s @ rest"
  using single_run[OF single_init assms] by (auto simp: single_inv_def)

lemma joining_released [simp]: "joining (released c) = (c = JoinCb)"
  by (cases c) auto

lemma joining_Written [simp]: "joining (Written a c) = (c = JoinCb)"
  by (cases c) auto

lemma joining_CasFailed [simp]: "joining (CasFailed a c) = (c = JoinCb)"
  by (cases c) auto

lemma count_list_0_iff': "(count_list xs x = 0) = (x \<notin> set xs)"
  by (induction xs) auto

text \<open>
  The \<^verbatim>\<open>join_cb\<close> record is the last one written; when the worker walks the arena that
  holds it, the other arena is empty.
\<close>

lemma sentinel_last:
  assumes "issued s = executed s @ pw @ po" "issued s \<noteq> []" "last (issued s) = x"
    and "count_list pw x + count_list po x = 1" "x \<in> set pw"
  shows "po = []"
proof (rule ccontr)
  assume "po \<noteq> []"
  then have "last (issued s) = last po" using assms(1) by simp
  then have "x \<in> set po" using assms(3) \<open>po \<noteq> []\<close> by (metis last_in_set)
  then have "count_list po x \<noteq> 0" by (simp add: count_list_0_iff')
  moreover have "count_list pw x \<noteq> 0" using assms(5) by (simp add: count_list_0_iff')
  ultimately show False using assms(4) by simp
qed

lemma join_notify: "join_inv (notify_one s) = join_inv s"
proof -
  have "producers (notify_one s) = producers s" "issued (notify_one s) = issued s"
    "join_done (notify_one s) = join_done s" "executed (notify_one s) = executed s"
    "pending (notify_one s) = pending s"
    by (simp_all add: notify_one_def)
  then show ?thesis by (simp add: join_inv_def single_notify)
qed

lemma join_step:
  assumes "join_inv s" "step e s = Some s'"
  shows "join_inv s'"
proof -
  have si: "single_inv s" using assms(1) by (auto simp: join_inv_def split: if_splits)
  have si': "single_inv s'" using si assms(2) by (rule single_step)
  from si have "length (producers s) = 1" by (simp add: single_inv_def)
  then obtain p where p: "producers s = [p]" by (cases "producers s") auto
  have ord: "issued s = executed s @ pending s (front s) @ pending s (other (front s))"
    using si by (simp add: single_inv_def)
  show ?thesis
  proof (cases e)
    case (Acquire i)
    then show ?thesis using assms p si'
      by (auto simp: join_inv_def split: if_splits option.splits)
  next
    case (Write i c)
    then obtain a where a: "p = Holding a" "i = 0"
      using assms(2) p by (auto split: if_splits pstate.splits)
    have s': "s' = s\<lparr>producers := [Written a c],
                    pending := (pending s)(a := pending s a @ [(0, c)]),
                    issued := issued s @ [(0, c)],
                    join_done := (if c = JoinCb then (join_done s)(0 := False) else join_done s)\<rparr>"
      using assms(2) Write p a by (auto split: if_splits)
    have nj: "count_list (pending s A) (0, JoinCb) = 0" "count_list (pending s B) (0, JoinCb) = 0"
      using assms(1) p a by (simp_all add: join_inv_def count_list_0_iff')
    have "if c = JoinCb
          then count_list (pending s' A @ pending s' B) (0, JoinCb) = 1
          else (0, JoinCb) \<notin> set (pending s' A @ pending s' B)"
      using nj unfolding s' by (cases a; cases c) (simp_all add: count_list_0_iff')
    moreover have "producers s' = [Written a c]" "issued s' = issued s @ [(0, c)]"
      "c = JoinCb \<Longrightarrow> \<not> join_done s' 0"
      unfolding s' by simp_all
    ultimately show ?thesis using si' by (cases c) (simp_all add: join_inv_def)
  next
    case (Cas i)
    then obtain a c where ac: "p = Written a c" "i = 0"
      using assms(2) p by (auto split: if_splits pstate.splits)
    show ?thesis
    proof (cases "primary s")
      case None
      then have s': "s' = notify_one (s\<lparr>primary := Some a, producers := [released c]\<rparr>)"
        using assms(2) Cas p ac by (simp add: cas_primary_def)
      have "single_inv (s\<lparr>primary := Some a, producers := [released c]\<rparr>)"
        using si' unfolding s' single_notify .
      then have "join_inv (s\<lparr>primary := Some a, producers := [released c]\<rparr>)"
        using assms(1) p ac by (auto simp: join_inv_def split: if_splits)
      then show ?thesis unfolding s' join_notify .
    next
      case (Some y)
      then have s': "s' = s\<lparr>producers := [CasFailed a c]\<rparr>"
        using assms(2) Cas p ac by (simp add: cas_primary_def)
      show ?thesis using assms(1) p ac si' unfolding s'
        by (auto simp: join_inv_def split: if_splits)
    qed
  next
    case (Store i)
    then obtain a c where ac: "p = CasFailed a c" "i = 0"
      using assms(2) p by (auto split: if_splits pstate.splits)
    have s': "s' = notify_one (s\<lparr>secondary := Some a, producers := [released c]\<rparr>)"
      using assms(2) Store p ac by simp
    have "single_inv (s\<lparr>secondary := Some a, producers := [released c]\<rparr>)"
      using si' unfolding s' single_notify .
    then have "join_inv (s\<lparr>secondary := Some a, producers := [released c]\<rparr>)"
      using assms(1) p ac by (auto simp: join_inv_def split: if_splits)
    then show ?thesis unfolding s' join_notify .
  next
    case (JoinReturn i)
    then have j: "p = JoinWait" "join_done s 0" "i = 0" and s': "s' = s\<lparr>producers := [Idle]\<rparr>"
      using assms(2) p by (auto split: if_splits)
    have "issued s = executed s" using assms(1) p j by (auto simp: join_inv_def split: if_splits)
    then have "pending s (front s) = [] \<and> pending s (other (front s)) = []" using ord by simp
    then have "pending s A = [] \<and> pending s B = []" by (cases "front s") auto
    then show ?thesis using si' unfolding s' by (auto simp: join_inv_def split: if_splits)
  next
    case WorkerInit
    then show ?thesis using assms p si' by (auto simp: join_inv_def split: if_splits)
  next
    case WorkerSwap
    then show ?thesis using assms p si' by (auto simp: join_inv_def split: if_splits)
  next
    case WorkerPoll
    then show ?thesis using assms p si' by (auto simp: join_inv_def split: if_splits)
  next
    case WorkerWake
    then show ?thesis using assms p si' by (auto simp: join_inv_def split: if_splits)
  next
    case Destroy
    have "join_inv (s\<lparr>shutdown := True\<rparr>)"
    proof -
      have "single_inv (s\<lparr>shutdown := True\<rparr>)"
        using si by (auto simp: single_inv_def front_def owners_def split: option.splits)
      then show ?thesis using assms(1) by (auto simp: join_inv_def split: if_splits)
    qed
    then show ?thesis using Destroy assms(2) by (auto simp: join_notify)
  next
    case WorkerRun
    then obtain w where w: "wbuffer s = Some w" "wpc s = WSpin"
      using assms(2) by (auto split: if_splits option.splits)
    have fw: "front s = w" using w by (simp add: front_def)
    show ?thesis
    proof (cases "pending s w = []")
      case True
      then show ?thesis using assms p si' WorkerRun w
        by (auto simp: join_inv_def split: if_splits)
    next
      case False
      then have s': "s' = (run_entries (pending s w) s)\<lparr>pending := (pending s)(w := []), wpc := WTop\<rparr>"
        using assms(2) WorkerRun w by simp
      have cnt: "count_list (pending s A @ pending s B) (0, JoinCb)
                 = count_list (pending s w) (0, JoinCb) + count_list (pending s (other w)) (0, JoinCb)"
        by (cases w) auto
      have mem: "((0, JoinCb) \<in> set (pending s A @ pending s B))
                 = ((0, JoinCb) \<in> set (pending s w) \<or> (0, JoinCb) \<in> set (pending s (other w)))"
        by (cases w) auto
      have cnt': "count_list (pending s' A @ pending s' B) (0, JoinCb)
                 = count_list (pending s (other w)) (0, JoinCb)"
        unfolding s' by (cases w) (auto simp: run_entries_def)
      have mem': "((0, JoinCb) \<in> set (pending s' A @ pending s' B))
                 = ((0, JoinCb) \<in> set (pending s (other w)))"
        unfolding s' by (cases w) (auto simp: run_entries_def)
      have basic: "producers s' = [p]" "issued s' = issued s" "executed s' = executed s @ pending s w"
        "join_done s' 0 = (join_done s 0 \<or> (0, JoinCb) \<in> set (pending s w))"
        unfolding s' using p by (simp_all add: run_entries_def)
      show ?thesis
      proof (cases "joining p")
        case nj: False
        then show ?thesis using assms(1) p si' basic mem mem'
          by (auto simp: join_inv_def split: if_splits)
      next
        case jn: True
        then have J: "issued s \<noteq> []" "last (issued s) = (0, JoinCb)"
          and D: "join_done s 0 \<Longrightarrow> issued s = executed s"
          and C: "\<not> join_done s 0 \<Longrightarrow> count_list (pending s A @ pending s B) (0, JoinCb) = 1"
          using assms(1) p by (auto simp: join_inv_def split: if_splits)
        have nd: "\<not> join_done s 0"
        proof
          assume "join_done s 0"
          then have "issued s = executed s" by (rule D)
          then show False using ord fw False by simp
        qed
        show ?thesis
        proof (cases "(0, JoinCb) \<in> set (pending s w)")
          case True
          have "pending s (other w) = []"
            using ord[unfolded fw] J C[OF nd, unfolded cnt] True by (rule sentinel_last)
          then have "issued s = executed s @ pending s w" using ord fw by simp
          then show ?thesis using jn p si' basic J True by (auto simp: join_inv_def split: if_splits)
        next
          case False
          then have "count_list (pending s w) (0, JoinCb) = 0" by (simp add: count_list_0_iff')
          then have "count_list (pending s' A @ pending s' B) (0, JoinCb) = 1"
            using C[OF nd] cnt cnt' by simp
          then show ?thesis using jn p si' basic J False nd by (auto simp: join_inv_def split: if_splits)
        qed
      qed
    qed
  qed
qed

lemma join_init: "join_inv (cq_init 1)"
  using single_init by (simp add: join_inv_def cq_init_def)

lemma join_run: "join_inv s \<Longrightarrow> run es s = Some s' \<Longrightarrow> join_inv s'"
  by (induction es arbitrary: s) (auto split: option.splits intro: join_step)

text \<open>
  With one producer thread, when \<^verbatim>\<open>join()\<close> can return, every record written so far has
  been executed.
\<close>

lemma single_producer_join:
  assumes "run es (cq_init 1) = Some s" and "step (JoinReturn 0) s = Some s'"
  shows "issued s = executed s"
proof -
  have "join_inv s" using join_init assms(1) by (rule join_run)
  moreover have "producers s ! 0 = JoinWait" "join_done s 0" "0 < length (producers s)"
    using assms(2) by (auto split: if_splits)
  moreover have "hd (producers s) = producers s ! 0"
    using \<open>0 < length (producers s)\<close> by (simp add: hd_conv_nth)
  ultimately show ?thesis by (auto simp: join_inv_def split: if_splits)
qed

section \<open>Memory, growth and reservation\<close>

text \<open>
  The length slot reads back the number that was written to it.
\<close>

lemma bytes_u32_bytes: "bytes_u32 (u32_bytes w) = w"
  unfolding bytes_u32_def u32_bytes_def
  apply simp
  apply (rule bit_word_eqI)
  subgoal for n
    by (cases "n < 8"; cases "n < 16"; cases "n < 24") (auto simp: bit_simps)
  done

lemma length_u32_bytes [simp]: "length (u32_bytes w) = 4"
  by (simp add: u32_bytes_def)

text \<open>
  The doubling loop never returns from capacity 0. From a capacity of at least 1 and for a
  request of at most \<open>2^31\<close> no doubling wraps, and the loop returns the first doubling
  that covers the request.
\<close>

lemma grow_size_zero_aux: "grow_size u sz = Some y \<Longrightarrow> sz = 0 \<longrightarrow> u = 0"
  by (rule grow_size.raw_induct[where P = "\<lambda>u sz y. sz = 0 \<longrightarrow> u = 0"])
     (auto simp: Let_def word_gt_0 split: if_splits)

lemma grow_size_zero: "u \<noteq> 0 \<Longrightarrow> grow_size u 0 = None"
  using grow_size_zero_aux[of u 0] by (cases "grow_size u 0") auto

lemma grow_size_doubles:
  "unat sz < unat u \<Longrightarrow> unat u \<le> 2 ^ 31 \<Longrightarrow> 0 < unat sz \<Longrightarrow>
   \<exists>k y. grow_size u sz = Some y \<and> unat y = unat sz * 2 ^ k \<and> unat u \<le> unat y"
proof (induction "unat u - unat sz" arbitrary: sz rule: less_induct)
  case less
  have nowrap: "unat (sz * 2) = unat sz * 2"
    using less.prems by (simp add: unat_word_ariths)
  show ?case
  proof (cases "u > sz * 2")
    case True
    then have lt: "unat (sz * 2) < unat u" by (simp add: word_less_nat_alt)
    have "\<exists>k y. grow_size u (sz * 2) = Some y \<and> unat y = unat (sz * 2) * 2 ^ k \<and> unat u \<le> unat y"
      using less.prems lt nowrap by (intro less.hyps) auto
    then obtain k y where "grow_size u (sz * 2) = Some y" "unat y = unat (sz * 2) * 2 ^ k" "unat u \<le> unat y"
      by blast
    then show ?thesis
      using True nowrap
      by (subst grow_size.simps) (auto simp: Let_def intro!: exI[of _ "Suc k"])
  next
    case False
    then have "unat u \<le> unat (sz * 2)" by (simp add: word_less_nat_alt not_less)
    then show ?thesis using False nowrap
      by (subst grow_size.simps) (auto simp: Let_def intro!: exI[of _ "Suc 0"])
  qed
qed

text \<open>
  Writes keep the length of the block; a read finds what was written, and a write leaves
  the bytes below it as they were.
\<close>

lemma length_store_bytes: "store_bytes mem off bs = Inr m \<Longrightarrow> length m = length mem"
  by (auto simp: store_bytes_def split: if_splits)

lemma load_store_same:
  "store_bytes mem off bs = Inr m \<Longrightarrow> load_bytes m off (length bs) = Inr bs"
  by (auto simp: store_bytes_def load_bytes_def split: if_splits)

lemma load_store_below:
  "store_bytes mem off bs = Inr m \<Longrightarrow> o' + n \<le> off \<Longrightarrow> load_bytes m o' n = load_bytes mem o' n"
  by (auto simp: store_bytes_def load_bytes_def drop_take min_def split: if_splits)

lemma take_store_below:
  "store_bytes mem off bs = Inr m \<Longrightarrow> k \<le> off \<Longrightarrow> take k m = take k mem"
  by (auto simp: store_bytes_def min_def split: if_splits)

text \<open>
  Writing the parameters one after the other and reading them back by their sizes.
\<close>

lemma store_args_ok:
  "off + sum_list (map length vs) \<le> length mem \<Longrightarrow>
   \<exists>m. store_args mem off vs = Inr m \<and> length m = length mem \<and>
       load_args m off (map length vs) = Inr vs \<and>
       (\<forall>o' n. o' + n \<le> off \<longrightarrow> load_bytes m o' n = load_bytes mem o' n) \<and>
       (\<forall>k \<le> off. take k m = take k mem)"
proof (induction vs arbitrary: mem off)
  case Nil
  then show ?case by simp
next
  case (Cons v vs)
  from Cons.prems have fit: "off + length v \<le> length mem" by simp
  then obtain m1 where m1: "store_bytes mem off v = Inr m1"
    by (simp add: store_bytes_def)
  have len1: "length m1 = length mem" using m1 by (rule length_store_bytes)
  have "off + length v + sum_list (map length vs) \<le> length m1"
    using Cons.prems len1 by simp
  from Cons.IH[OF this] obtain m where
    m: "store_args m1 (off + length v) vs = Inr m" "length m = length m1"
       "load_args m (off + length v) (map length vs) = Inr vs"
       "\<forall>o' n. o' + n \<le> off + length v \<longrightarrow> load_bytes m o' n = load_bytes m1 o' n"
       "\<forall>k \<le> off + length v. take k m = take k m1"
    by blast
  have "load_bytes m off (length v) = load_bytes m1 off (length v)"
    using m(4) by simp
  also have "\<dots> = Inr v" using m1 by (rule load_store_same)
  finally have lv: "load_bytes m off (length v) = Inr v" .
  have below: "\<forall>o' n. o' + n \<le> off \<longrightarrow> load_bytes m o' n = load_bytes mem o' n"
    using m(4) load_store_below[OF m1] by simp
  have tk: "\<forall>k \<le> off. take k m = take k mem"
    using m(5) take_store_below[OF m1] by simp
  show ?case
    using m1 m(1,2,3) len1 lv below tk by simp
qed


lemma length_realloc_bytes [simp]: "length (realloc_bytes cs n) = n"
  by (simp add: realloc_bytes_def)

lemma take_realloc_bytes: "k \<le> length cs \<Longrightarrow> length cs \<le> n \<Longrightarrow> take k (realloc_bytes cs n) = take k cs"
  by (simp add: realloc_bytes_def)

lemma unat_reserved:
  assumes "psz + 4 + unat sz < 2 ^ 32"
  shows "unat (of_nat psz + 4 + sz :: uint32_t) = psz + 4 + unat sz"
proof -
  have "unat (of_nat psz + 4 + sz :: uint32_t) = (psz + 4 + unat sz) mod 2 ^ 32"
    by (simp add: unat_word_ariths unat_of_nat mod_simps)
  then show ?thesis using assms by simp
qed

lemma unat_used_reserved:
  assumes "unat u + psz + 4 + unat sz < 2 ^ 32"
  shows "unat (u + (of_nat psz + 4 + sz) :: uint32_t) = unat u + psz + 4 + unat sz"
proof -
  have r: "unat (of_nat psz + 4 + sz :: uint32_t) = psz + 4 + unat sz"
    using assms by (intro unat_reserved) simp
  have "unat (u + (of_nat psz + 4 + sz)) = (unat u + unat (of_nat psz + 4 + sz :: uint32_t)) mod 2 ^ 32"
    by (simp add: unat_word_ariths)
  then show ?thesis using assms r by simp
qed

text \<open>
  A reservation on a buffer within the bounds: it returns, \<^verbatim>\<open>used\<close> grows by the size of the
  record, the capacity is multiplied by a power of two, the header slots hold the handler
  and the length, and the records before it are untouched.
\<close>

lemma allocCommand_ok:
  assumes ok: "buffer_ok b" and pos: "1 \<le> unat (size_buf b)"
    and bound: "unat (used b) + psz + 4 + unat sz \<le> 2 ^ 31"
    and fit: "length f \<le> psz + 4 + unat sz"
  shows "\<exists>b' k. allocCommand psz b f sz = Some (Inr (b', unat (used b) + psz + 4))
       \<and> buffer_ok b' \<and> unat (used b') = unat (used b) + psz + 4 + unat sz
       \<and> unat (size_buf b') = unat (size_buf b) * 2 ^ k
       \<and> load_bytes (commands b') (unat (used b) + psz) 4 = Inr (u32_bytes (of_nat psz + 4 + sz))
       \<and> (length f \<le> psz \<longrightarrow> load_bytes (commands b') (unat (used b)) (length f) = Inr f)
       \<and> take (unat (used b)) (commands b') = take (unat (used b)) (commands b)"
proof -
  define reserved :: uint32_t where "reserved = of_nat psz + 4 + sz"
  define u' where "u' = used b + reserved"
  have lt32: "unat (used b) + psz + 4 + unat sz < 2 ^ 32" using bound by simp
  have u': "unat u' = unat (used b) + psz + 4 + unat sz"
    unfolding u'_def reserved_def using lt32 by (rule unat_used_reserved)
  have len: "length (commands b) = unat (size_buf b)" and ule: "unat (used b) \<le> unat (size_buf b)"
    using ok by (simp_all add: buffer_ok_def word_le_nat_alt)
  define grown where "grown = (if u' > size_buf b then grow_size u' (size_buf b) else Some (size_buf b))"
  have "\<exists>k y. grown = Some y \<and> unat y = unat (size_buf b) * 2 ^ k \<and> unat u' \<le> unat y"
  proof (cases "u' > size_buf b")
    case True
    then have "unat (size_buf b) < unat u'" by (simp add: word_less_nat_alt)
    then show ?thesis
      using grow_size_doubles[of "size_buf b" u'] u' bound pos True by (simp add: grown_def)
  next
    case False
    then have "unat u' \<le> unat (size_buf b)" by (simp add: word_less_nat_alt not_less)
    then show ?thesis using False by (auto simp: grown_def intro!: exI[of _ 0])
  qed
  then obtain k y where y: "grown = Some y" "unat y = unat (size_buf b) * 2 ^ k" "unat u' \<le> unat y"
    by blast
  define cs where "cs = (if u' > size_buf b then realloc_bytes (commands b) (unat y) else commands b)"
  have ge: "unat (size_buf b) \<le> unat y" using y(2) by simp
  have y_same: "\<not> u' > size_buf b \<Longrightarrow> y = size_buf b" using y(1) by (simp add: grown_def)
  have lcs: "length cs = unat y"
    using len y_same by (auto simp: cs_def)
  have tcs: "take (unat (used b)) cs = take (unat (used b)) (commands b)"
    using len ule ge by (auto simp: cs_def take_realloc_bytes)
  have "unat (used b) + length f \<le> length cs" using fit u' y(3) lcs by simp
  then obtain m1 where m1: "store_bytes cs (unat (used b)) f = Inr m1"
    by (simp add: store_bytes_def)
  have l1: "length m1 = length cs" using m1 by (rule length_store_bytes)
  have "unat (used b) + psz + length (u32_bytes reserved) \<le> length m1"
    using u' y(3) lcs l1 by simp
  then obtain m2 where m2: "store_bytes m1 (unat (used b) + psz) (u32_bytes reserved) = Inr m2"
    by (simp add: store_bytes_def)
  have l2: "length m2 = length m1" using m2 by (rule length_store_bytes)
  define b' where "b' = b\<lparr>commands := m2, size_buf := y, used := u'\<rparr>"
  have res: "allocCommand psz b f sz = Some (Inr (b', unat (used b) + psz + 4))"
  proof (cases "u' > size_buf b")
    case True
    then show ?thesis
      using y(1) m1 m2 unfolding grown_def cs_def u'_def reserved_def b'_def
      by (simp add: allocCommand_def Let_def)
  next
    case False
    then show ?thesis
      using y_same m1 m2 unfolding grown_def cs_def u'_def reserved_def b'_def
      by (simp add: allocCommand_def Let_def)
  qed
  have okb: "buffer_ok b'"
    using l2 l1 lcs y(3) by (simp add: buffer_ok_def b'_def word_le_nat_alt)
  have ld_len: "load_bytes m2 (unat (used b) + psz) 4 = Inr (u32_bytes reserved)"
    using load_store_same[OF m2] by simp
  have ld_f: "length f \<le> psz \<Longrightarrow> load_bytes m2 (unat (used b)) (length f) = Inr f"
    using load_store_below[OF m2, of "unat (used b)" "length f"] load_store_same[OF m1] by simp
  have tk: "take (unat (used b)) m2 = take (unat (used b)) (commands b)"
    using take_store_below[OF m2, of "unat (used b)"] take_store_below[OF m1, of "unat (used b)"] tcs
    by simp
  show ?thesis
    using res okb u' y(2) ld_len ld_f tk
    by (intro exI[of _ b'] exI[of _ k]) (simp add: b'_def reserved_def)
qed


text \<open>
  The walk over a concatenation of well-formed records makes the calls \<open>record_calls\<close>
  lists and stops at the end of the last record.
\<close>

lemma load_bytes_append:
  "n \<le> length r \<Longrightarrow> load_bytes (pre @ r @ post) (length pre) n = Inr (take n r)"
  by (simp add: load_bytes_def)

lemma load_bytes_append_off:
  "k + n \<le> length r \<Longrightarrow> load_bytes (pre @ r @ post) (length pre + k) n = Inr (take n (drop k r))"
  by (simp add: load_bytes_def drop_append)

lemma wf_record_len: "wf_record psz r \<Longrightarrow> unat (bytes_u32 (take 4 (drop psz r))) = length r"
  by (simp add: wf_record_def unat_of_nat)

lemma wf_records_pos: "rs \<noteq> [] \<Longrightarrow> \<forall>r\<in>set rs. wf_record psz r \<Longrightarrow> 0 < length (concat rs)"
  by (cases rs) (auto simp: wf_record_def)

lemma walk_loop_records:
  assumes "rs \<noteq> []" "\<forall>r\<in>set rs. wf_record psz r"
  shows "walk_loop psz (pre @ concat rs @ post) (length pre + length (concat rs)) (length pre) calls
         = Some (Inr (calls @ record_calls psz (length pre) rs, length pre + length (concat rs)))"
  using assms
proof (induction rs arbitrary: pre calls)
  case Nil
  then show ?case by simp
next
  case (Cons r rs)
  then have wf: "wf_record psz r" by simp
  then have hdr: "psz + 4 \<le> length r" by (simp add: wf_record_def)
  let ?mem = "pre @ concat (r # rs) @ post"
  have mem: "?mem = pre @ r @ (concat rs @ post)" by simp
  have h: "load_bytes ?mem (length pre) psz = Inr (take psz r)"
    unfolding mem using hdr by (intro load_bytes_append) simp
  have l: "load_bytes ?mem (length pre + psz) 4 = Inr (take 4 (drop psz r))"
    unfolding mem using hdr by (intro load_bytes_append_off) simp
  have n: "unat (bytes_u32 (take 4 (drop psz r))) = length r"
    using wf by (rule wf_record_len)
  show ?case
  proof (cases "rs = []")
    case True
    then show ?thesis
      using h l n by (subst walk_loop.simps) (simp add: Let_def)
  next
    case False
    have pos: "0 < length (concat rs)"
      using False Cons.prems by (intro wf_records_pos) auto
    have ih: "walk_loop psz ((pre @ r) @ concat rs @ post) (length (pre @ r) + length (concat rs))
                (length (pre @ r)) (calls @ [(take psz r, length pre + psz + 4)])
              = Some (Inr ((calls @ [(take psz r, length pre + psz + 4)])
                            @ record_calls psz (length (pre @ r)) rs,
                           length (pre @ r) + length (concat rs)))"
      using False Cons.prems by (intro Cons.IH) auto
    show ?thesis
      using h l n pos ih
      by (subst walk_loop.simps) (simp add: Let_def add.assoc)
  qed
qed

lemma length_record_calls [simp]: "length (record_calls psz base rs) = length rs"
  by (induction rs arbitrary: base) auto

lemma record_calls_lower: "\<forall>c\<in>set (record_calls psz base rs). base + psz + 4 \<le> snd c"
  by (induction rs arbitrary: base) fastforce+

lemma sorted_record_calls:
  "\<forall>r\<in>set rs. wf_record psz r \<Longrightarrow> sorted_wrt (<) (map snd (record_calls psz base rs))"
proof (induction rs arbitrary: base)
  case Nil
  then show ?case by simp
next
  case (Cons r rs)
  have low: "\<forall>c\<in>set (record_calls psz (base + length r) rs). base + length r + psz + 4 \<le> snd c"
    by (rule record_calls_lower)
  have "psz + 4 \<le> length r" using Cons.prems by (simp add: wf_record_def)
  then show ?case using Cons low by fastforce
qed


lemma unat_of_nat32: "n < 2 ^ 32 \<Longrightarrow> unat (of_nat n :: uint32_t) = n"
  by (simp add: unat_of_nat)

text \<open>
  The record that \<^verbatim>\<open>execute\<close> writes, and what its stub reads from it.
\<close>

lemma execute_record_ok:
  assumes ok: "buffer_ok b" and pos: "1 \<le> unat (size_buf b)"
    and bound: "unat (used b) + 3 * psz + 4 + sum_list (map length vs) \<le> 2 ^ 31"
    and stub: "length stub = psz" and f: "length f \<le> psz"
  shows "\<exists>b'. execute_record psz b stub f vs = Some (Inr (b', unat (used b) + psz + 4))
       \<and> executeStub psz (length f) (map length vs) (commands b') (unat (used b) + psz + 4) = Inr (f, vs)
       \<and> buffer_ok b'
       \<and> unat (used b') = unat (used b) + 3 * psz + 4 + sum_list (map length vs)
       \<and> load_bytes (commands b') (unat (used b)) psz = Inr stub
       \<and> load_bytes (commands b') (unat (used b) + psz) 4
           = Inr (u32_bytes (of_nat (3 * psz + 4 + sum_list (map length vs))))
       \<and> take (unat (used b)) (commands b') = take (unat (used b)) (commands b)"
proof -
  define n where "n = psz + psz + sum_list (map length vs)"
  define base where "base = unat (used b)"
  define data where "data = base + psz + 4"
  have n32: "n < 2 ^ 32" using bound by (simp add: n_def)
  have un: "unat (of_nat n :: uint32_t) = n" using n32 by (rule unat_of_nat32)
  have b1: "unat (used b) + psz + 4 + unat (of_nat n :: uint32_t) \<le> 2 ^ 31"
    using bound un by (simp add: n_def)
  have b2: "length stub \<le> psz + 4 + unat (of_nat n :: uint32_t)" using stub by simp
  from allocCommand_ok[OF ok pos b1 b2] obtain b1 where
    a: "allocCommand psz b stub (of_nat n) = Some (Inr (b1, data))"
      "buffer_ok b1" "unat (used b1) = base + psz + 4 + n"
      "load_bytes (commands b1) (base + psz) 4 = Inr (u32_bytes (of_nat psz + 4 + of_nat n))"
      "load_bytes (commands b1) base (length stub) = Inr stub"
      "take base (commands b1) = take base (commands b)"
    using stub un unfolding base_def data_def by auto
  have len1: "unat (used b1) \<le> length (commands b1)"
    using a(2) by (simp add: buffer_ok_def word_le_nat_alt)
  have "data + length f \<le> length (commands b1)"
    using len1 a(3) f by (simp add: data_def n_def)
  then obtain m where m: "store_bytes (commands b1) data f = Inr m"
    by (simp add: store_bytes_def)
  have lm: "length m = length (commands b1)" using m by (rule length_store_bytes)
  have "data + psz + sum_list (map length vs) \<le> length m"
    using len1 a(3) lm by (simp add: data_def n_def)
  from store_args_ok[OF this] obtain m' where
    m': "store_args m (data + psz) vs = Inr m'" "length m' = length m"
        "load_args m' (data + psz) (map length vs) = Inr vs"
        "\<forall>o' k. o' + k \<le> data + psz \<longrightarrow> load_bytes m' o' k = load_bytes m o' k"
        "\<forall>k \<le> data + psz. take k m' = take k m"
    by blast
  define b' where "b' = b1\<lparr>commands := m'\<rparr>"
  have res: "execute_record psz b stub f vs = Some (Inr (b', data))"
    using a(1) m m'(1) by (simp add: execute_record_def n_def b'_def)
  have lf: "load_bytes m' data (length f) = Inr f"
    using m'(4) f load_store_same[OF m] by simp
  have stubres: "executeStub psz (length f) (map length vs) (commands b') data = Inr (f, vs)"
    using lf m'(3) by (simp add: executeStub_def b'_def)
  have okb: "buffer_ok b'"
    using a(2) m'(2) lm by (simp add: buffer_ok_def b'_def)
  have lstub: "load_bytes m' base psz = Inr stub"
    using m'(4) load_store_below[OF m, of base psz] a(5) stub by (simp add: data_def)
  have llen: "load_bytes m' (base + psz) 4 = Inr (u32_bytes (of_nat psz + 4 + of_nat n))"
    using m'(4) load_store_below[OF m, of "base + psz" 4] a(4) by (simp add: data_def)
  have tk: "take base m' = take base (commands b)"
    using m'(5) take_store_below[OF m, of base] a(6) by (simp add: data_def)
  have eqn: "(of_nat psz + 4 + of_nat n :: uint32_t) = of_nat (3 * psz + 4 + sum_list (map length vs))"
    by (simp add: n_def)
  show ?thesis
    using res stubres okb a(3) lstub llen tk unfolding eqn
    by (intro exI[of _ b']) (simp add: b'_def base_def data_def n_def)
qed

section \<open>The walk\<close>

lemma record_calls_nth:
  "i < length rs \<Longrightarrow>
   record_calls psz base rs ! i = (take psz (rs ! i), base + length (concat (take i rs)) + psz + 4)"
proof (induction rs arbitrary: base i)
  case Nil
  then show ?case by simp
next
  case (Cons r rs)
  then show ?case by (cases i) simp_all
qed

lemma walk_loop_prefix:
  assumes "rs \<noteq> []" "\<forall>r\<in>set rs. wf_record psz r"
    and "take fin mem = concat rs" and "fin \<le> length mem"
  shows "walk_loop psz mem fin 0 [] = Some (Inr (record_calls psz 0 rs, fin))"
proof -
  have len: "length (concat rs) = fin"
    using assms(3,4) by (metis length_take min.absorb2)
  have mem: "mem = [] @ concat rs @ drop fin mem"
    using assms(3) by (metis append_Nil append_take_drop_id)
  show ?thesis
    using walk_loop_records[OF assms(1,2), of "[]" "drop fin mem" "[]"]
    unfolding mem[symmetric] len by simp
qed

text \<open>
  C5. Worker arena walk: for a buffer with \<^verbatim>\<open>used\<close> not 0 whose bytes from 0 to \<^verbatim>\<open>used\<close> are
  the concatenation of the well-formed records \<open>rs\<close>, the walk starts at offset 0, calls
  the handler slot of each record once and in order, passing the record's offset plus
  \<open>psz + 4\<close> (the data section), advances by the record's length slot, stops when the
  cursor is \<^verbatim>\<open>used\<close>, and then sets \<^verbatim>\<open>used\<close> to 0; the block and its size stay as they were.
\<close>

theorem walk_invokes_records:
  assumes "used buffer \<noteq> 0"
    and "\<forall>r\<in>set rs. wf_record psz r"
    and "take (unat (used buffer)) (commands buffer) = concat rs"
    and "unat (used buffer) \<le> length (commands buffer)"
  shows "walk psz buffer = Some (Inr (buffer\<lparr>used := 0\<rparr>, record_calls psz 0 rs))
       \<and> walk_loop psz (commands buffer) (unat (used buffer)) 0 []
           = Some (Inr (record_calls psz 0 rs, unat (used buffer)))
       \<and> length (record_calls psz 0 rs) = length rs
       \<and> (\<forall>i<length rs. record_calls psz 0 rs ! i
              = (take psz (rs ! i), length (concat (take i rs)) + psz + 4))"
proof -
  have "length (concat rs) = unat (used buffer)"
    using assms(3,4) by (metis length_take min.absorb2)
  moreover have "unat (used buffer) \<noteq> 0" using assms(1) by (simp add: unat_eq_0)
  ultimately have ne: "rs \<noteq> []" by auto
  have w: "walk_loop psz (commands buffer) (unat (used buffer)) 0 []
           = Some (Inr (record_calls psz 0 rs, unat (used buffer)))"
    using ne assms(2,3,4) by (rule walk_loop_prefix)
  then have "walk psz buffer = Some (Inr (buffer\<lparr>used := 0\<rparr>, record_calls psz 0 rs))"
    using assms(1) by (simp add: walk_def)
  then show ?thesis using w by (simp add: record_calls_nth)
qed

theorem walk_invokes_records_witness:
  "walk 8 \<lparr>commands = [1,0,0,0,0,0,0,0, 12,0,0,0, 2,0,0,0,0,0,0,0, 16,0,0,0, 9,9,9,9, 0,0,0,0],
           size_buf = 32, used = 28\<rparr>
   = Some (Inr (\<lparr>commands = [1,0,0,0,0,0,0,0, 12,0,0,0, 2,0,0,0,0,0,0,0, 16,0,0,0, 9,9,9,9, 0,0,0,0],
                 size_buf = 32, used = 0\<rparr>,
                [([1,0,0,0,0,0,0,0], 12), ([2,0,0,0,0,0,0,0], 24)]))"
proof -
  let ?b = "\<lparr>commands = [1,0,0,0,0,0,0,0, 12,0,0,0, 2,0,0,0,0,0,0,0, 16,0,0,0, 9,9,9,9, 0,0,0,0 :: byte],
           size_buf = 32, used = 28\<rparr>"
  let ?rs = "[[1,0,0,0,0,0,0,0, 12,0,0,0], [2,0,0,0,0,0,0,0, 16,0,0,0, 9,9,9,9 :: byte]]"
  have 1: "used ?b \<noteq> 0" by simp
  have 2: "\<forall>r\<in>set ?rs. wf_record 8 r" by (simp add: wf_record_def bytes_u32_def)
  have 3: "take (unat (used ?b)) (commands ?b) = concat ?rs" by simp
  have 4: "unat (used ?b) \<le> length (commands ?b)" by simp
  from walk_invokes_records[OF 1 2 3 4] show ?thesis by simp
qed

text \<open>
  C9. Walk termination: when the bytes from 0 to \<open>fin\<close> are a concatenation of records
  that each carry their length, at least \<open>psz + 4\<close>, in the length slot, the
  \<^verbatim>\<open>do ... while\<close> returns; it makes one turn for each record, the cursor grows strictly from
  turn to turn and ends at \<open>fin\<close>.
\<close>

theorem walk_loop_terminates:
  assumes "rs \<noteq> []"
    and "\<forall>r\<in>set rs. wf_record psz r"
    and "take fin mem = concat rs" and "fin \<le> length mem"
  shows "\<exists>calls. walk_loop psz mem fin 0 [] = Some (Inr (calls, fin))
           \<and> length calls = length rs
           \<and> sorted_wrt (<) (map snd calls)
           \<and> (\<forall>i<length rs. snd (calls ! i) = length (concat (take i rs)) + psz + 4)"
  using walk_loop_prefix[OF assms] sorted_record_calls[OF assms(2), of 0]
  by (simp add: record_calls_nth)

theorem walk_loop_terminates_witness:
  "\<exists>calls. walk_loop 8 [1,0,0,0,0,0,0,0, 12,0,0,0, 2,0,0,0,0,0,0,0, 16,0,0,0, 9,9,9,9, 0,0,0,0] 28 0 []
             = Some (Inr (calls, 28))
         \<and> length calls = 2 \<and> sorted_wrt (<) (map snd calls)"
proof -
  let ?m = "[1,0,0,0,0,0,0,0, 12,0,0,0, 2,0,0,0,0,0,0,0, 16,0,0,0, 9,9,9,9, 0,0,0,0 :: byte]"
  let ?rs = "[[1,0,0,0,0,0,0,0, 12,0,0,0], [2,0,0,0,0,0,0,0, 16,0,0,0, 9,9,9,9 :: byte]]"
  have 1: "?rs \<noteq> []" by simp
  have 2: "\<forall>r\<in>set ?rs. wf_record 8 r" by (simp add: wf_record_def bytes_u32_def)
  have 3: "take 28 ?m = concat ?rs" by simp
  have 4: "28 \<le> length ?m" by simp
  from walk_loop_terminates[OF 1 2 3 4] show ?thesis by auto
qed

section \<open>Typed enqueue and its stub\<close>

lemma walk_loop_single:
  assumes "load_bytes mem base psz = Inr h"
    and "load_bytes mem (base + psz) 4 = Inr (u32_bytes (of_nat n))"
    and "n < 2 ^ 32"
  shows "walk_loop psz mem (base + n) base [] = Some (Inr ([(h, base + psz + 4)], base + n))"
  using assms
  by (subst walk_loop.simps) (simp add: Let_def bytes_u32_bytes unat_of_nat32)

text \<open>
  C6, amended. Typed-enqueue round trip: for a callable whose object is no larger than a
  pointer (\<^verbatim>\<open>sizeof( TCB ) <= sizeof( TCB* )\<close>, as for a function pointer) and 0 to 6
  parameters, \<^verbatim>\<open>execute\<close> appends one record whose handler is the stub; the worker calls
  the stub with the record's data section, and the stub reads back the callable and the
  parameters that were written, in order, and calls \<^verbatim>\<open>function( v1, ..., vN )\<close>. (The queue
  has to have room below \<open>2^31\<close> bytes and a block of at least one byte.)
\<close>

theorem execute_round_trip:
  assumes "buffer_ok b" and "1 \<le> unat (size_buf b)"
    and "unat (used b) + 3 * psz + 4 + sum_list (map length vs) \<le> 2 ^ 31"
    and "length stub = psz" and "length f \<le> psz" and "length vs \<le> 6"
  shows "\<exists>b'. execute_record psz b stub f vs = Some (Inr (b', unat (used b) + psz + 4))
       \<and> walk_loop psz (commands b') (unat (used b')) (unat (used b)) []
           = Some (Inr ([(stub, unat (used b) + psz + 4)], unat (used b')))
       \<and> executeStub psz (length f) (map length vs) (commands b') (unat (used b) + psz + 4)
           = Inr (f, vs)"
proof -
  from execute_record_ok[OF assms(1,2,3,4,5)] obtain b' where
    r: "execute_record psz b stub f vs = Some (Inr (b', unat (used b) + psz + 4))"
       "executeStub psz (length f) (map length vs) (commands b') (unat (used b) + psz + 4) = Inr (f, vs)"
       "unat (used b') = unat (used b) + 3 * psz + 4 + sum_list (map length vs)"
       "load_bytes (commands b') (unat (used b)) psz = Inr stub"
       "load_bytes (commands b') (unat (used b) + psz) 4
           = Inr (u32_bytes (of_nat (3 * psz + 4 + sum_list (map length vs))))"
    by blast
  have n: "3 * psz + 4 + sum_list (map length vs) < 2 ^ 32" using assms(3) by simp
  have "walk_loop psz (commands b') (unat (used b) + (3 * psz + 4 + sum_list (map length vs))) (unat (used b)) []
        = Some (Inr ([(stub, unat (used b) + psz + 4)], unat (used b) + (3 * psz + 4 + sum_list (map length vs))))"
    using r(4,5) n by (rule walk_loop_single)
  then show ?thesis using r(1,2,3) by (intro exI[of _ b']) (simp add: add.assoc)
qed

theorem execute_round_trip_witness:
  "\<exists>b'. execute_record 8 (init_buffer 16) [16,32,48,64,0,0,0,0] [1,2,3,4,5,6,7,8] [[170,187,204,221]]
          = Some (Inr (b', 12))
       \<and> walk_loop 8 (commands b') (unat (used b')) 0 []
           = Some (Inr ([([16,32,48,64,0,0,0,0], 12)], unat (used b')))
       \<and> executeStub 8 8 [4] (commands b') 12 = Inr ([1,2,3,4,5,6,7,8], [[170,187,204,221]])"
proof -
  have 1: "buffer_ok (init_buffer 16)" by (simp add: buffer_ok_def init_buffer_def malloc_bytes_def)
  have 2: "1 \<le> unat (size_buf (init_buffer 16))" by (simp add: init_buffer_def)
  have 3: "unat (used (init_buffer 16)) + 3 * 8 + 4 + sum_list (map length [[170,187,204,221 :: byte]]) \<le> 2 ^ 31"
    by (simp add: init_buffer_def)
  have lf: "length [1,2,3,4,5,6,7,8 :: byte] = 8" by simp
  have lv: "map length [[170,187,204,221 :: byte]] = [4]" by simp
  have u: "unat (used (init_buffer 16)) = 0" by (simp add: init_buffer_def)
  have 4: "length [16,32,48,64,0,0,0,0 :: byte] = 8" by simp
  have 5: "length [1,2,3,4,5,6,7,8 :: byte] \<le> 8" by simp
  have 6: "length [[170,187,204,221 :: byte]] \<le> 6" by simp
  from execute_round_trip[OF 1 2 3 4 5 6, unfolded lf lv u]
  show ?thesis by simp
qed

text \<open>
  C6 as stated fails for a callable larger than a pointer: the parameters are written
  from \<^verbatim>\<open>data + sizeof( TCB* )\<close> on, over the tail of the callable written at \<^verbatim>\<open>data\<close>. With
  8-byte pointers, a 16-byte callable and one 4-byte parameter, the stub reads a callable
  whose bytes 8 to 11 are the parameter's.
\<close>

theorem execute_oversized_callable:
  "(case execute_record 8 (init_buffer 32) [16,32,48,64,0,0,0,0]
          [1,2,3,4,5,6,7,8,9,10,11,12,13,14,15,16] [[170,187,204,221]] of
     Some (Inr (b', data)) \<Rightarrow> executeStub 8 16 [4] (commands b') data
   | _ \<Rightarrow> Inl OutOfBounds)
   = Inr ([1,2,3,4,5,6,7,8,170,187,204,221,13,14,15,16], [[170,187,204,221]])
   \<and> (case execute_record 8 (init_buffer 32) [16,32,48,64,0,0,0,0]
          [1,2,3,4,5,6,7,8,9,10,11,12,13,14,15,16] [[170,187,204,221]] of
     Some (Inr (b', data)) \<Rightarrow> executeStub 8 16 [4] (commands b') data
   | _ \<Rightarrow> Inl OutOfBounds)
   \<noteq> Inr ([1,2,3,4,5,6,7,8,9,10,11,12,13,14,15,16], [[170,187,204,221]])"
  by code_simp

section \<open>Return values\<close>

text \<open>
  The record that \<^verbatim>\<open>returns\<close> writes, and what its stub does with it.
\<close>

lemma returns_record_ok:
  assumes ok: "buffer_ok b" and pos: "1 \<le> unat (size_buf b)"
    and bound: "unat (used b) + 3 * psz + 4 + length ret + sum_list (map length vs) \<le> 2 ^ 31"
    and stub: "length stub = psz" and f: "length f \<le> psz"
  shows "\<exists>b'. returns_record psz b stub f ret vs = Some (Inr (b', unat (used b) + psz + 4))
       \<and> returnStub psz (length f) (length ret) (map length vs) invoke (commands b')
             (unat (used b) + psz + 4) heap = Inr (heap(ret \<mapsto> invoke f vs))
       \<and> unat (used b') = unat (used b) + 3 * psz + 4 + length ret + sum_list (map length vs)
       \<and> load_bytes (commands b') (unat (used b)) psz = Inr stub
       \<and> load_bytes (commands b') (unat (used b) + psz) 4
           = Inr (u32_bytes (of_nat (3 * psz + 4 + length ret + sum_list (map length vs))))"
proof -
  define n where "n = psz + psz + length ret + sum_list (map length vs)"
  define base where "base = unat (used b)"
  define data where "data = base + psz + 4"
  have n32: "n < 2 ^ 32" using bound by (simp add: n_def)
  have un: "unat (of_nat n :: uint32_t) = n" using n32 by (rule unat_of_nat32)
  have b1: "unat (used b) + psz + 4 + unat (of_nat n :: uint32_t) \<le> 2 ^ 31"
    using bound un by (simp add: n_def)
  have b2: "length stub \<le> psz + 4 + unat (of_nat n :: uint32_t)" using stub by simp
  from allocCommand_ok[OF ok pos b1 b2] obtain b1 where
    a: "allocCommand psz b stub (of_nat n) = Some (Inr (b1, data))"
      "buffer_ok b1" "unat (used b1) = base + psz + 4 + n"
      "load_bytes (commands b1) (base + psz) 4 = Inr (u32_bytes (of_nat psz + 4 + of_nat n))"
      "load_bytes (commands b1) base (length stub) = Inr stub"
    using stub un unfolding base_def data_def by auto
  have len1: "unat (used b1) \<le> length (commands b1)"
    using a(2) by (simp add: buffer_ok_def word_le_nat_alt)
  have "data + length f \<le> length (commands b1)"
    using len1 a(3) f by (simp add: data_def n_def)
  then obtain m where m: "store_bytes (commands b1) data f = Inr m"
    by (simp add: store_bytes_def)
  have lm: "length m = length (commands b1)" using m by (rule length_store_bytes)
  have "data + psz + length ret \<le> length m"
    using len1 a(3) lm by (simp add: data_def n_def)
  then obtain m1 where m1: "store_bytes m (data + psz) ret = Inr m1"
    by (simp add: store_bytes_def)
  have lm1: "length m1 = length m" using m1 by (rule length_store_bytes)
  have "data + psz + length ret + sum_list (map length vs) \<le> length m1"
    using len1 a(3) lm lm1 by (simp add: data_def n_def)
  from store_args_ok[OF this] obtain m' where
    m': "store_args m1 (data + psz + length ret) vs = Inr m'"
        "load_args m' (data + psz + length ret) (map length vs) = Inr vs"
        "\<forall>o' k. o' + k \<le> data + psz + length ret \<longrightarrow> load_bytes m' o' k = load_bytes m1 o' k"
    by blast
  define b' where "b' = b1\<lparr>commands := m'\<rparr>"
  have res: "returns_record psz b stub f ret vs = Some (Inr (b', data))"
    using a(1) m m1 m'(1) by (simp add: returns_record_def n_def b'_def)
  have lret: "load_bytes m' (data + psz) (length ret) = Inr ret"
    using m'(3) load_store_same[OF m1] by simp
  have "load_bytes m' data (length f) = load_bytes m1 data (length f)"
    using m'(3) f by simp
  also have "\<dots> = load_bytes m data (length f)"
    using load_store_below[OF m1, of data "length f"] f by simp
  also have "\<dots> = Inr f" using m by (rule load_store_same)
  finally have lf: "load_bytes m' data (length f) = Inr f" .
  have stubres: "returnStub psz (length f) (length ret) (map length vs) invoke (commands b') data heap
                 = Inr (heap(ret \<mapsto> invoke f vs))"
    using lf lret m'(2) by (simp add: returnStub_def b'_def)
  have "load_bytes m' base psz = load_bytes m1 base psz"
    using m'(3) by (simp add: data_def)
  also have "\<dots> = load_bytes m base psz"
    using load_store_below[OF m1, of base psz] by (simp add: data_def)
  also have "\<dots> = load_bytes (commands b1) base psz"
    using load_store_below[OF m, of base psz] by (simp add: data_def)
  finally have lstub: "load_bytes m' base psz = Inr stub" using a(5) stub by simp
  have "load_bytes m' (base + psz) 4 = load_bytes m1 (base + psz) 4"
    using m'(3) by (simp add: data_def)
  also have "\<dots> = load_bytes m (base + psz) 4"
    using load_store_below[OF m1, of "base + psz" 4] by (simp add: data_def)
  also have "\<dots> = load_bytes (commands b1) (base + psz) 4"
    using load_store_below[OF m, of "base + psz" 4] by (simp add: data_def)
  finally have llen: "load_bytes m' (base + psz) 4 = Inr (u32_bytes (of_nat psz + 4 + of_nat n))"
    using a(4) by simp
  have eqn: "(of_nat psz + 4 + of_nat n :: uint32_t)
             = of_nat (3 * psz + 4 + length ret + sum_list (map length vs))"
    by (simp add: n_def)
  show ?thesis
    using res stubres a(3) lstub llen unfolding eqn
    by (intro exI[of _ b']) (simp add: b'_def base_def data_def n_def)
qed

text \<open>
  C7, amended. Return-value round trip: for a callable no larger than a pointer and 0 to
  6 parameters, after the worker has called the stub of the record that \<^verbatim>\<open>returns\<close> wrote,
  the value at the return address \<^verbatim>\<open>ret\<close> is the value the callable returns on
  \<open>v1, ..., vN\<close>.
\<close>

theorem returns_round_trip:
  assumes "buffer_ok b" and "1 \<le> unat (size_buf b)"
    and "unat (used b) + 3 * psz + 4 + length ret + sum_list (map length vs) \<le> 2 ^ 31"
    and "length stub = psz" and "length f \<le> psz" and "length vs \<le> 6"
  shows "\<exists>b' heap'. returns_record psz b stub f ret vs = Some (Inr (b', unat (used b) + psz + 4))
       \<and> walk_loop psz (commands b') (unat (used b')) (unat (used b)) []
           = Some (Inr ([(stub, unat (used b) + psz + 4)], unat (used b')))
       \<and> returnStub psz (length f) (length ret) (map length vs) invoke (commands b')
             (unat (used b) + psz + 4) heap = Inr heap'
       \<and> heap' ret = Some (invoke f vs)"
proof -
  from returns_record_ok[OF assms(1,2,3,4,5), of invoke heap] obtain b' where
    r: "returns_record psz b stub f ret vs = Some (Inr (b', unat (used b) + psz + 4))"
       "returnStub psz (length f) (length ret) (map length vs) invoke (commands b')
             (unat (used b) + psz + 4) heap = Inr (heap(ret \<mapsto> invoke f vs))"
       "unat (used b') = unat (used b) + 3 * psz + 4 + length ret + sum_list (map length vs)"
       "load_bytes (commands b') (unat (used b)) psz = Inr stub"
       "load_bytes (commands b') (unat (used b) + psz) 4
           = Inr (u32_bytes (of_nat (3 * psz + 4 + length ret + sum_list (map length vs))))"
    by blast
  have n: "3 * psz + 4 + length ret + sum_list (map length vs) < 2 ^ 32" using assms(3) by simp
  have "walk_loop psz (commands b')
          (unat (used b) + (3 * psz + 4 + length ret + sum_list (map length vs))) (unat (used b)) []
        = Some (Inr ([(stub, unat (used b) + psz + 4)],
                     unat (used b) + (3 * psz + 4 + length ret + sum_list (map length vs))))"
    using r(4,5) n by (rule walk_loop_single)
  then show ?thesis
    using r(1,2,3)
    by (intro exI[of _ b'] exI[of _ "heap(ret \<mapsto> invoke f vs)"]) (simp add: add.assoc)
qed

theorem returns_round_trip_witness:
  "\<exists>b' heap'. returns_record 8 (init_buffer 16) [16,32,48,64,0,0,0,0] [1,2,3,4,5,6,7,8]
          [0,1,0,0,0,0,0,0] [[3,0,0,0],[4,0,0,0]] = Some (Inr (b', 12))
       \<and> returnStub 8 8 8 [4,4] (\<lambda>f vs. sum_list (map bytes_u32 vs)) (commands b') 12 Map.empty
           = Inr heap'
       \<and> heap' [0,1,0,0,0,0,0,0] = Some 7"
proof -
  have 1: "buffer_ok (init_buffer 16)" by (simp add: buffer_ok_def init_buffer_def malloc_bytes_def)
  have 2: "1 \<le> unat (size_buf (init_buffer 16))" by (simp add: init_buffer_def)
  have 3: "unat (used (init_buffer 16)) + 3 * 8 + 4 + length [0,1,0,0,0,0,0,0 :: byte]
             + sum_list (map length [[3,0,0,0],[4,0,0,0 :: byte]]) \<le> 2 ^ 31"
    by (simp add: init_buffer_def)
  have lf: "length [1,2,3,4,5,6,7,8 :: byte] = 8" by simp
  have lr: "length [0,1,0,0,0,0,0,0 :: byte] = 8" by simp
  have lv: "map length [[3,0,0,0],[4,0,0,0 :: byte]] = [4, 4]" by simp
  have u: "unat (used (init_buffer 16)) + 8 + 4 = 12" by (simp add: init_buffer_def)
  have v: "sum_list (map bytes_u32 [[3,0,0,0],[4,0,0,0]]) = 7" by (simp add: bytes_u32_def)
  have 4: "length [16,32,48,64,0,0,0,0 :: byte] = 8" by simp
  have 5: "length [1,2,3,4,5,6,7,8 :: byte] \<le> 8" by simp
  have 6: "length [[3,0,0,0],[4,0,0,0 :: byte]] \<le> 6" by simp
  from returns_round_trip[OF 1 2 3 4 5 6, of "\<lambda>f vs. sum_list (map bytes_u32 vs)" Map.empty,
      unfolded lf lr lv u v]
  show ?thesis by blast
qed

text \<open>
  C7 as stated fails for a callable larger than a pointer: the return address is written
  at \<^verbatim>\<open>data + sizeof( TCB* )\<close>, over the second half of a 16-byte callable. The value stored
  at the return address is the result of calling the overwritten callable (the model
  returns the callable it was asked to call), not of the callable that was enqueued.
\<close>

theorem returns_oversized_callable:
  "(case returns_record 8 (init_buffer 64) [16,32,48,64,0,0,0,0]
          [1,2,3,4,5,6,7,8,9,10,11,12,13,14,15,16] [0,1,0,0,0,0,0,0] [[3,0,0,0],[4,0,0,0]] of
     Some (Inr (b', data)) \<Rightarrow>
       (case returnStub 8 16 8 [4,4] (\<lambda>f vs. (f, vs)) (commands b') data Map.empty of
          Inr heap' \<Rightarrow> heap' [0,1,0,0,0,0,0,0]
        | Inl e \<Rightarrow> None)
   | _ \<Rightarrow> None)
   = Some ([1,2,3,4,5,6,7,8,0,1,0,0,0,0,0,0], [[3,0,0,0],[4,0,0,0]])
   \<and> (case returns_record 8 (init_buffer 64) [16,32,48,64,0,0,0,0]
          [1,2,3,4,5,6,7,8,9,10,11,12,13,14,15,16] [0,1,0,0,0,0,0,0] [[3,0,0,0],[4,0,0,0]] of
     Some (Inr (b', data)) \<Rightarrow>
       (case returnStub 8 16 8 [4,4] (\<lambda>f vs. (f, vs)) (commands b') data Map.empty of
          Inr heap' \<Rightarrow> heap' [0,1,0,0,0,0,0,0]
        | Inl e \<Rightarrow> None)
   | _ \<Rightarrow> None)
   \<noteq> Some ([1,2,3,4,5,6,7,8,9,10,11,12,13,14,15,16], [[3,0,0,0],[4,0,0,0]])"
  by code_simp

section \<open>Capacity\<close>

text \<open>
  A sequence of reservations within the bounds.
\<close>

lemma alloc_all_ok:
  assumes "buffer_ok b" and "1 \<le> unat (size_buf b)"
    and "unat (used b) + sum_list (map (\<lambda>c. psz + 4 + unat (snd c)) cs) \<le> 2 ^ 31"
    and "\<forall>c\<in>set cs. length (fst c) \<le> psz + 4 + unat (snd c)"
  shows "\<exists>b' k. alloc_all psz b cs = Some (Inr b') \<and> buffer_ok b'
         \<and> unat (used b') = unat (used b) + sum_list (map (\<lambda>c. psz + 4 + unat (snd c)) cs)
         \<and> unat (size_buf b') = unat (size_buf b) * 2 ^ k"
  using assms
proof (induction cs arbitrary: b)
  case Nil
  then show ?case by (auto intro!: exI[of _ 0])
next
  case (Cons c cs)
  have b1: "unat (used b) + psz + 4 + unat (snd c) \<le> 2 ^ 31" using Cons.prems(3) by simp
  have b2: "length (fst c) \<le> psz + 4 + unat (snd c)" using Cons.prems(4) by simp
  from allocCommand_ok[OF Cons.prems(1,2) b1 b2] obtain b1 k1 where
    a: "allocCommand psz b (fst c) (snd c) = Some (Inr (b1, unat (used b) + psz + 4))"
       "buffer_ok b1" "unat (used b1) = unat (used b) + psz + 4 + unat (snd c)"
       "unat (size_buf b1) = unat (size_buf b) * 2 ^ k1"
    by blast
  have p1: "1 \<le> unat (size_buf b1)" using a(4) Cons.prems(2) by simp
  have p3: "unat (used b1) + sum_list (map (\<lambda>c. psz + 4 + unat (snd c)) cs) \<le> 2 ^ 31"
    using a(3) Cons.prems(3) by simp
  have p4: "\<forall>c\<in>set cs. length (fst c) \<le> psz + 4 + unat (snd c)" using Cons.prems(4) by simp
  from Cons.IH[OF a(2) p1 p3 p4] obtain b' k2 where
    r: "alloc_all psz b1 cs = Some (Inr b')" "buffer_ok b'"
       "unat (used b') = unat (used b1) + sum_list (map (\<lambda>c. psz + 4 + unat (snd c)) cs)"
       "unat (size_buf b') = unat (size_buf b1) * 2 ^ k2"
    by blast
  show ?case
    using a(1,3,4) r
    by (intro exI[of _ b'] exI[of _ "k1 + k2"]) (simp add: power_add)
qed

lemma walk_keeps_block:
  "walk psz w = Some (Inr (w', calls)) \<Longrightarrow> size_buf w' = size_buf w \<and> commands w' = commands w"
  by (auto simp: walk_def split: if_splits option.splits sum.splits)

text \<open>
  C8, amended. Buffer growth policy: on a buffer of at least one byte, and as long as the
  reserved total stays at or below \<open>2^31\<close>, every sequence of reservations returns, leaves
  \<^verbatim>\<open>used\<close> (the old \<^verbatim>\<open>used\<close> plus the sizes of the records) within the capacity, and the
  capacity is the initial capacity times a power of two, so it has not decreased. The
  walk, and the reset at its end, leave the capacity as it was.
\<close>

theorem capacity_growth:
  assumes "buffer_ok b" and "1 \<le> unat (size_buf b)"
    and "unat (used b) + sum_list (map (\<lambda>c. psz + 4 + unat (snd c)) cs) \<le> 2 ^ 31"
    and "\<forall>c\<in>set cs. length (fst c) \<le> psz + 4 + unat (snd c)"
  shows "(\<exists>b' k. alloc_all psz b cs = Some (Inr b')
            \<and> unat (used b') = unat (used b) + sum_list (map (\<lambda>c. psz + 4 + unat (snd c)) cs)
            \<and> used b' \<le> size_buf b'
            \<and> unat (size_buf b') = unat (size_buf b) * 2 ^ k
            \<and> size_buf b \<le> size_buf b')
       \<and> (\<forall>w w' calls. walk psz w = Some (Inr (w', calls)) \<longrightarrow> size_buf w' = size_buf w)"
proof -
  from alloc_all_ok[OF assms] obtain b' k where
    r: "alloc_all psz b cs = Some (Inr b')" "buffer_ok b'"
       "unat (used b') = unat (used b) + sum_list (map (\<lambda>c. psz + 4 + unat (snd c)) cs)"
       "unat (size_buf b') = unat (size_buf b) * 2 ^ k"
    by blast
  have "used b' \<le> size_buf b'" using r(2) by (simp add: buffer_ok_def)
  moreover have "size_buf b \<le> size_buf b'" using r(4) by (simp add: word_le_nat_alt)
  ultimately have "\<exists>b' k. alloc_all psz b cs = Some (Inr b')
            \<and> unat (used b') = unat (used b) + sum_list (map (\<lambda>c. psz + 4 + unat (snd c)) cs)
            \<and> used b' \<le> size_buf b'
            \<and> unat (size_buf b') = unat (size_buf b) * 2 ^ k
            \<and> size_buf b \<le> size_buf b'"
    using r by blast
  then show ?thesis using walk_keeps_block by blast
qed

theorem capacity_growth_witness:
  "\<exists>b' k. alloc_all 8 (init_buffer 16) [([1,0,0,0,0,0,0,0], 0), ([2,0,0,0,0,0,0,0], 8)] = Some (Inr b')
       \<and> unat (used b') = 32 \<and> used b' \<le> size_buf b' \<and> unat (size_buf b') = 16 * 2 ^ k"
proof -
  let ?cs = "[([1,0,0,0,0,0,0,0], 0), ([2,0,0,0,0,0,0,0], 8)] :: (byte list \<times> uint32_t) list"
  have 1: "buffer_ok (init_buffer 16)" by (simp add: buffer_ok_def init_buffer_def malloc_bytes_def)
  have 2: "1 \<le> unat (size_buf (init_buffer 16))" by (simp add: init_buffer_def)
  have 3: "unat (used (init_buffer 16)) + sum_list (map (\<lambda>c. 8 + 4 + unat (snd c)) ?cs) \<le> 2 ^ 31"
    by (simp add: init_buffer_def)
  have 4: "\<forall>c\<in>set ?cs. length (fst c) \<le> 8 + 4 + unat (snd c)" by simp
  have u: "unat (used (init_buffer 16)) + sum_list (map (\<lambda>c. 8 + 4 + unat (snd c)) ?cs) = 32"
    "unat (size_buf (init_buffer 16)) = 16"
    by (simp_all add: init_buffer_def)
  from capacity_growth[OF 1 2 3 4, unfolded u] show ?thesis by blast
qed

text \<open>
  Above \<open>2^31\<close> the doubling wraps to 0 and the loop never returns.
\<close>

lemma grow_size_wraps: "grow_size (2 ^ 31 + 1) (2 ^ 31) = None"
proof -
  have z: "(2 ^ 31 :: uint32_t) * 2 = 0" by simp
  have "grow_size (2 ^ 31 + 1 :: uint32_t) 0 = None" by (rule grow_size_zero) simp
  then show ?thesis by (subst grow_size.simps) (simp only: Let_def z word_gt_0, simp)
qed

text \<open>
  C8 as stated fails on the buffer that \<^verbatim>\<open>CommandQueue( 0 )\<close> allocates: doubling 0 stays 0,
  the loop never ends, and the reservation ensures nothing. It fails the same way once
  \<^verbatim>\<open>used\<close> passes \<open>2^31\<close>: the capacity \<open>2^31\<close> doubles to 0.
\<close>

theorem reserve_diverges:
  "allocCommand 8 (init_buffer 0) [1,0,0,0,0,0,0,0] 0 = None
   \<and> alloc_all 8 (init_buffer 0) [([1,0,0,0,0,0,0,0], 0)] = None
   \<and> allocCommand 8 \<lparr>commands = replicate (2 ^ 31) 0, size_buf = 2 ^ 31, used = 2 ^ 31 - 11\<rparr>
         [1,0,0,0,0,0,0,0] 0 = None"
proof -
  have "grow_size (12 :: uint32_t) 0 = None" by (rule grow_size_zero) simp
  then have a: "allocCommand 8 (init_buffer 0) [1,0,0,0,0,0,0,0] 0 = None"
    by (simp add: allocCommand_def init_buffer_def Let_def)
  have u: "(2 ^ 31 - 11 :: uint32_t) + (of_nat 8 + 4 + 0) = 2 ^ 31 + 1" by simp
  have lt: "(2 ^ 31 :: uint32_t) < 2 ^ 31 + 1" by simp
  have b: "allocCommand 8 \<lparr>commands = replicate (2 ^ 31) 0, size_buf = 2 ^ 31, used = 2 ^ 31 - 11\<rparr>
         [1,0,0,0,0,0,0,0] 0 = None"
    unfolding allocCommand_def Let_def queue_buffer_t.simps u
    using lt grow_size_wraps by simp
  from a b show ?thesis by simp
qed

text \<open>
  C10. Growth-loop termination: for a buffer of capacity at least 1 and a reservation whose
  new \<^verbatim>\<open>used\<close> is at most \<open>2^31\<close>, the doubling loop of \<^verbatim>\<open>allocCommand\<close> returns with
  \<^verbatim>\<open>used\<close> at most the new capacity, and \<^verbatim>\<open>allocCommand\<close> returns. With capacity 0, which
  \<^verbatim>\<open>CommandQueue( 0 )\<close> builds, it never returns; and the doubling wraps modulo \<open>2^32\<close>:
  from capacity \<open>2^31\<close> it reaches 0.
\<close>

theorem growth_loop_terminates:
  "(1 \<le> unat (size_buf b) \<and> unat (used b + (of_nat psz + 4 + sz)) \<le> 2 ^ 31 \<longrightarrow>
      (\<exists>y. (if used b + (of_nat psz + 4 + sz) > size_buf b
             then grow_size (used b + (of_nat psz + 4 + sz)) (size_buf b)
             else Some (size_buf b)) = Some y
          \<and> used b + (of_nat psz + 4 + sz) \<le> y
          \<and> (\<exists>r. allocCommand psz b f sz = Some r
                \<and> (\<forall>b' data. r = Inr (b', data) \<longrightarrow>
                      size_buf b' = y \<and> used b' = used b + (of_nat psz + 4 + sz)
                      \<and> used b' \<le> size_buf b'))))
   \<and> (size_buf b = 0 \<and> used b + (of_nat psz + 4 + sz) \<noteq> 0 \<longrightarrow> allocCommand psz b f sz = None)
   \<and> size_buf (init_buffer 0) = 0
   \<and> grow_size (2 ^ 31 + 1) (2 ^ 31) = None"
proof -
  define u where "u = used b + (of_nat psz + 4 + sz)"
  have a: "\<exists>y. (if u > size_buf b then grow_size u (size_buf b) else Some (size_buf b)) = Some y
          \<and> u \<le> y
          \<and> (\<exists>r. allocCommand psz b f sz = Some r
                \<and> (\<forall>b' data. r = Inr (b', data) \<longrightarrow>
                      size_buf b' = y \<and> used b' = u \<and> used b' \<le> size_buf b'))"
    if h: "1 \<le> unat (size_buf b)" "unat u \<le> 2 ^ 31"
  proof (cases "u > size_buf b")
    case True
    then have "unat (size_buf b) < unat u" by (simp add: word_less_nat_alt)
    from grow_size_doubles[OF this h(2)] h(1) obtain k y where
      y: "grow_size u (size_buf b) = Some y" "unat u \<le> unat y" by auto
    have "u \<le> y" using y(2) by (simp add: word_le_nat_alt)
    then show ?thesis
      using True y(1) unfolding u_def
      by (auto simp: allocCommand_def Let_def split: sum.splits)
  next
    case False
    then have "u \<le> size_buf b" by (simp add: not_less)
    then show ?thesis
      using False unfolding u_def
      by (auto simp: allocCommand_def Let_def split: sum.splits)
  qed
  have z: "allocCommand psz b f sz = None" if "size_buf b = 0" "u \<noteq> 0"
  proof -
    have "grow_size u 0 = None" using that(2) by (rule grow_size_zero)
    moreover have "u > 0" using that(2) by (simp add: word_gt_0)
    ultimately show ?thesis using that(1) unfolding u_def
      by (simp add: allocCommand_def Let_def)
  qed
  show ?thesis
    using a z grow_size_wraps unfolding u_def by (simp add: init_buffer_def)
qed

theorem growth_loop_terminates_witness:
  "(\<exists>y. grow_size 20 16 = Some y \<and> 20 \<le> y
      \<and> (\<exists>r. allocCommand 8 (init_buffer 16) [1,0,0,0,0,0,0,0] 8 = Some r
            \<and> (\<forall>b' data. r = Inr (b', data) \<longrightarrow> size_buf b' = y \<and> used b' = 20
                  \<and> used b' \<le> size_buf b')))
   \<and> allocCommand 8 (init_buffer 0) [1,0,0,0,0,0,0,0] 8 = None"
proof -
  have u: "used (init_buffer 16) + (of_nat 8 + 4 + 8) = 20" "size_buf (init_buffer 16) = 16"
    "used (init_buffer 0) + (of_nat 8 + 4 + 8) = 20" "size_buf (init_buffer 0) = 0"
    by (simp_all add: init_buffer_def)
  have lt: "(16 :: uint32_t) < 20" by simp
  have h: "1 \<le> unat (16 :: uint32_t) \<and> unat (20 :: uint32_t) \<le> 2 ^ 31" by simp
  have z: "(0 :: uint32_t) = 0 \<and> (20 :: uint32_t) \<noteq> 0" by simp
  from growth_loop_terminates[of "init_buffer 16" 8 8 "[1,0,0,0,0,0,0,0]", unfolded u] h lt
  have a: "\<exists>y. grow_size 20 16 = Some y \<and> 20 \<le> y
      \<and> (\<exists>r. allocCommand 8 (init_buffer 16) [1,0,0,0,0,0,0,0] 8 = Some r
            \<and> (\<forall>b' data. r = Inr (b', data) \<longrightarrow> size_buf b' = y \<and> used b' = 20
                  \<and> used b' \<le> size_buf b'))"
    by simp
  from growth_loop_terminates[of "init_buffer 0" 8 8 "[1,0,0,0,0,0,0,0]", unfolded u] z
  have b: "allocCommand 8 (init_buffer 0) [1,0,0,0,0,0,0,0] 8 = None"
    by blast
  from a b show ?thesis by blast
qed

end
